theory Spec2Isabelle
  imports Main "HOL-Library.Multiset"
begin

section \<open>Python-level values: errors and sequence indexing\<close>

datatype error = IndexError | AssertionError

text \<open>
  \<open>shape[axis]\<close>: indexing a sequence with a Python integer. An index below \<open>-len\<close> or
  at least \<open>len\<close> raises \<open>IndexError\<close>; a negative index counts from the end.
\<close>

definition getitem :: "'a list \<Rightarrow> int \<Rightarrow> error + 'a" where
  "getitem xs idx =
     (if idx < - int (length xs) \<or> int (length xs) \<le> idx then Inl IndexError
      else Inr (xs ! nat (if idx < 0 then idx + int (length xs) else idx)))"

section \<open>The merge-sort kernel sequence (\<open>sort_ir\<close>)\<close>

text \<open>
  Buffers are flat lists. Element values are taken from a linear order (the comparator on
  unordered values such as NaN is outside the model); sizes, cursors and thread indices are
  natural numbers (the 32- and 64-bit integers of the kernels never wrap for a buffer that
  fits in memory); an index buffer holds axis positions.
\<close>

definition ceil_div :: "nat \<Rightarrow> nat \<Rightarrow> nat" where
  "ceil_div a b = (a + b - 1) div b"

text \<open>Lines 102--111: the products of the dimensions before and after the axis.\<close>

definition axis_mul_before :: "nat list \<Rightarrow> int \<Rightarrow> nat" where
  "axis_mul_before shape axis =
     fold (\<lambda>(i, v) m. if int i < axis then m * v else m) (enumerate 0 shape) 1"

definition axis_mul_after :: "nat list \<Rightarrow> int \<Rightarrow> nat" where
  "axis_mul_after shape axis =
     fold (\<lambda>(i, v) m. if int i < axis then m else if int i > axis then m * v else m)
       (enumerate 0 shape) 1"

text \<open>
  The buffers the kernels write: the output value buffer, its swap buffer, and the two
  optional index buffers (\<open>None\<close> when the caller passes none).
\<close>

record 'a bufs =
  values_out :: "'a list"
  values_out_swap :: "'a list"
  indices_out :: "nat list option"
  indices_out_swap :: "nat list option"

text \<open>
  A launch runs one thread per point of the grid
  \<open>(blockIdx.y, blockIdx.z, blockIdx.x * nthread_tx + threadIdx.x)\<close>. The threads of one
  launch write disjoint cells, so the launch is modelled as the threads run one after the
  other; a launch ends before the next one starts.
\<close>

definition grid :: "nat \<Rightarrow> nat \<Rightarrow> nat \<Rightarrow> nat \<Rightarrow> (nat \<times> nat \<times> nat) list" where
  "grid nthread_tx nthread_bx nthread_by nthread_bz =
     concat (map (\<lambda>by. concat (map (\<lambda>bz. concat (map (\<lambda>bx.
       map (\<lambda>tx. (by, bz, bx * nthread_tx + tx)) [0..<nthread_tx])
       [0..<nthread_bx])) [0..<nthread_bz])) [0..<nthread_by])"

text \<open>
  The element type of an index buffer (the \<open>dtype\<close> argument of \<open>argsort\<close>, \<open>"float32"\<close>
  by default, and of \<open>topk\<close>, \<open>"int64"\<close> by default). Line 146 stores
  \<open>cast(tid, indices_out.dtype)\<close>: the thread index is a 32-bit integer, which the integer
  types hold as it is, and which a floating-point type rounds to its significand of 24 or 53
  bits, to the nearest value and to the even one at a tie. An index buffer is modelled by
  the list of the numbers it holds.
\<close>

datatype dtype = Int32 | Int64 | Float32 | Float64

fun bit_length :: "nat \<Rightarrow> nat" where
  "bit_length x = (if x = 0 then 0 else Suc (bit_length (x div 2)))"

declare bit_length.simps [simp del]

definition round_to_bits :: "nat \<Rightarrow> nat \<Rightarrow> nat" where
  "round_to_bits m x =
     (if x < 2 ^ m then x
      else let e = bit_length x - m;
               q = x div 2 ^ e;
               r = x mod 2 ^ e;
               h = 2 ^ (e - 1)
           in (if h < r \<or> (r = h \<and> odd q) then q + 1 else q) * 2 ^ e)"

definition cast_index :: "dtype \<Rightarrow> nat \<Rightarrow> nat" where
  "cast_index dt tid =
     (case dt of Int32 \<Rightarrow> tid | Int64 \<Rightarrow> tid
      | Float32 \<Rightarrow> round_to_bits 24 tid | Float64 \<Rightarrow> round_to_bits 53 tid)"

text \<open>Lines 131--146: copy the data to the output buffer, and seed the indices.\<close>

definition seed_thread ::
  "nat \<Rightarrow> nat \<Rightarrow> dtype \<Rightarrow> 'a list \<Rightarrow> nat \<times> nat \<times> nat \<Rightarrow> 'a bufs \<Rightarrow> 'a bufs" where
  "seed_thread n mul_after dt data = (\<lambda>(by, bz, tid) b.
     let idx = (by * n + tid) * mul_after + bz in
     if tid < n then
       b\<lparr>values_out := (values_out b)[idx := data ! idx],
         indices_out := map_option (\<lambda>io. io[idx := cast_index dt tid]) (indices_out b)\<rparr>
     else b)"

text \<open>Lines 186--194.\<close>

definition compare :: "bool \<Rightarrow> 'a::linorder \<Rightarrow> 'a \<Rightarrow> bool" where
  "compare is_ascend a b = (if is_ascend then a \<le> b else b \<le> a)"

text \<open>
  Lines 213--225: \<open>assign_i\<close> and \<open>assign_j\<close> store the value under cursor \<open>i\<close>
  (or \<open>j\<close>) at the output position, and its index when index buffers are present, and
  advance the cursor.
\<close>

definition assign_i ::
  "'a list \<Rightarrow> nat list option \<Rightarrow> nat \<Rightarrow> nat \<Rightarrow>
   nat \<times> nat \<times> 'a list \<times> nat list option \<Rightarrow> nat \<times> nat \<times> 'a list \<times> nat list option" where
  "assign_i source source_idx i_idx k_idx = (\<lambda>(i, j, dest, dest_idx).
     (i + 1, j, dest[k_idx := source ! i_idx],
      (case (source_idx, dest_idx) of
         (Some si, Some di) \<Rightarrow> Some (di[k_idx := si ! i_idx])
       | _ \<Rightarrow> dest_idx)))"

definition assign_j ::
  "'a list \<Rightarrow> nat list option \<Rightarrow> nat \<Rightarrow> nat \<Rightarrow>
   nat \<times> nat \<times> 'a list \<times> nat list option \<Rightarrow> nat \<times> nat \<times> 'a list \<times> nat list option" where
  "assign_j source source_idx j_idx k_idx = (\<lambda>(i, j, dest, dest_idx).
     (i, j + 1, dest[k_idx := source ! j_idx],
      (case (source_idx, dest_idx) of
         (Some si, Some di) \<Rightarrow> Some (di[k_idx := si ! j_idx])
       | _ \<Rightarrow> dest_idx)))"

text \<open>
  Lines 208--239: one iteration \<open>k\<close> of the output loop, on the thread's cursors \<open>i\<close>,
  \<open>j\<close> and the destination buffers.
\<close>

definition swap_values ::
  "bool \<Rightarrow> nat \<Rightarrow> nat \<Rightarrow> nat \<Rightarrow> nat \<Rightarrow> nat \<Rightarrow> 'a::linorder list \<Rightarrow> nat list option \<Rightarrow> nat \<Rightarrow>
   nat \<times> nat \<times> 'a list \<times> nat list option \<Rightarrow> nat \<times> nat \<times> 'a list \<times> nat list option" where
  "swap_values is_ascend base_idx mul_after start middle end source source_idx k st =
     (let i = fst st; j = fst (snd st);
          i_idx = base_idx + i * mul_after;
          j_idx = base_idx + j * mul_after;
          k_idx = base_idx + (k + start) * mul_after
      in if i < middle \<and> j < end then
           (if compare is_ascend (source ! i_idx) (source ! j_idx)
            then assign_i source source_idx i_idx k_idx st
            else assign_j source source_idx j_idx k_idx st)
         else (if i < middle then assign_i source source_idx i_idx k_idx st
               else assign_j source source_idx j_idx k_idx st))"

text \<open>
  Lines 241--245: the iteration reads the output buffers and writes the swap buffers when
  \<open>even\<close> holds, and the other way round otherwise.
\<close>

definition merge_body ::
  "bool \<Rightarrow> nat \<Rightarrow> nat \<Rightarrow> nat \<Rightarrow> nat \<Rightarrow> nat \<Rightarrow> bool \<Rightarrow> nat \<Rightarrow>
   nat \<times> nat \<times> 'a::linorder bufs \<Rightarrow> nat \<times> nat \<times> 'a bufs" where
  "merge_body is_ascend base_idx mul_after start middle end even_round k = (\<lambda>(i, j, b).
     if even_round then
       (case swap_values is_ascend base_idx mul_after start middle end
               (values_out b) (indices_out b) k (i, j, values_out_swap b, indices_out_swap b) of
          (i', j', dest, dest_idx) \<Rightarrow>
            (i', j', b\<lparr>values_out_swap := dest, indices_out_swap := dest_idx\<rparr>))
     else
       (case swap_values is_ascend base_idx mul_after start middle end
               (values_out_swap b) (indices_out_swap b) k (i, j, values_out b, indices_out b) of
          (i', j', dest, dest_idx) \<Rightarrow>
            (i', j', b\<lparr>values_out := dest, indices_out := dest_idx\<rparr>)))"

text \<open>Lines 196--245: the cursors start at \<open>start\<close> and \<open>middle\<close>; \<open>end - start\<close> iterations.\<close>

definition bottom_up_merge ::
  "bool \<Rightarrow> nat \<Rightarrow> nat \<Rightarrow> nat \<Rightarrow> nat \<Rightarrow> nat \<Rightarrow> nat \<Rightarrow> nat \<Rightarrow> bool \<Rightarrow>
   'a::linorder bufs \<Rightarrow> 'a bufs" where
  "bottom_up_merge is_ascend n mul_after by bz start middle end even_round b =
     (let base_idx = by * n * mul_after + bz in
      snd (snd (fold (merge_body is_ascend base_idx mul_after start middle end even_round)
        [0..<end - start] (start, middle, b))))"

text \<open>Lines 247--256: the run of one thread, clamped to the axis length.\<close>

definition mergesort ::
  "bool \<Rightarrow> nat \<Rightarrow> nat \<Rightarrow> nat \<Rightarrow> nat \<Rightarrow> bool \<Rightarrow> nat \<times> nat \<times> nat \<Rightarrow>
   'a::linorder bufs \<Rightarrow> 'a bufs" where
  "mergesort is_ascend n mul_after sz width even_round = (\<lambda>(by, bz, tid) b.
     let start = width * tid in
     if start < sz then
       let middle = min (start + width div 2) sz;
           end = min (start + width) sz
       in bottom_up_merge is_ascend n mul_after by bz start middle end even_round b
     else b)"

text \<open>
  Lines 161--267: the launch of round \<open>l2_width\<close>, with \<open>width = 2 << l2_width\<close> and a grid
  of \<open>ceil_div n (width * max_threads)\<close> blocks of \<open>max_threads\<close> threads per segment.
\<close>

definition merge_round ::
  "nat \<Rightarrow> bool \<Rightarrow> nat \<Rightarrow> nat \<Rightarrow> nat \<Rightarrow> nat \<Rightarrow> 'a::linorder bufs \<Rightarrow> 'a bufs" where
  "merge_round max_threads is_ascend mul_before n mul_after l2_width b =
     (let width = 2 * 2 ^ l2_width in
      fold (mergesort is_ascend n mul_after n width (l2_width mod 2 = 0))
        (grid max_threads (ceil_div n (width * max_threads)) mul_before mul_after) b)"

text \<open>
  Lines 158--160: the bound of the loop over the rounds,
  \<open>cast(ceil(log2(cast(shape[axis], "float64"))), "int64")\<close>. For an axis of length
  \<open>n \<ge> 1\<close> the model takes the exact integer \<open>ceil_log2 n\<close>, which the double-precision
  computation gives for every \<open>n\<close> up to \<open>2 ^ 49\<close>. For an empty axis \<open>log2\<close> is
  \<open>-inf\<close> and its conversion to a 64-bit integer is undefined: the value the host gives
  is the parameter \<open>neg_inf_cast\<close> (the least 64-bit integer on x86-64). The code has no
  guard for the empty axis.
\<close>

fun ceil_log2 :: "nat \<Rightarrow> nat" where
  "ceil_log2 n = (if n \<le> 1 then 0 else Suc (ceil_log2 ((n + 1) div 2)))"

declare ceil_log2.simps [simp del]

definition lim_rounds :: "int \<Rightarrow> nat \<Rightarrow> int" where
  "lim_rounds neg_inf_cast n = (if n = 0 then neg_inf_cast else int (ceil_log2 n))"

text \<open>Lines 270--287: copy the swap buffers to the output buffers.\<close>

definition writeback_thread :: "nat \<Rightarrow> nat \<Rightarrow> nat \<times> nat \<times> nat \<Rightarrow> 'a bufs \<Rightarrow> 'a bufs" where
  "writeback_thread n mul_after = (\<lambda>(by, bz, tid) b.
     let idx = (by * n + tid) * mul_after + bz in
     if tid < n then
       b\<lparr>values_out := (values_out b)[idx := values_out_swap b ! idx],
         indices_out :=
           (case (indices_out b, indices_out_swap b) of
              (Some io, Some ios) \<Rightarrow> Some (io[idx := ios ! idx])
            | _ \<Rightarrow> indices_out b)\<rparr>
     else b)"

text \<open>
  The three stages of the kernel sequence, for a buffer of \<open>mul_before * n * mul_after\<close>
  elements sorted along the axis of length \<open>n\<close>: the seed launch, the loop
  \<open>for l2_width in range(0, lim)\<close> of the rounds (no iteration when \<open>lim \<le> 0\<close>), and
  the final copy when \<open>lim mod 2 = 1\<close>.
\<close>

definition sort_kernels ::
  "int \<Rightarrow> nat \<Rightarrow> bool \<Rightarrow> nat \<Rightarrow> nat \<Rightarrow> nat \<Rightarrow> dtype \<Rightarrow> 'a::linorder list \<Rightarrow> 'a bufs \<Rightarrow> 'a bufs" where
  "sort_kernels neg_inf_cast max_threads is_ascend mul_before n mul_after dt data b =
     (let nthread_bx = ceil_div n max_threads;
          lim = lim_rounds neg_inf_cast n;
          b1 = fold (seed_thread n mul_after dt data)
                 (grid max_threads nthread_bx mul_before mul_after) b;
          b2 = fold (merge_round max_threads is_ascend mul_before n mul_after) [0..<nat lim] b1
      in if lim mod 2 = 1 then
           fold (writeback_thread n mul_after) (grid max_threads nthread_bx mul_before mul_after) b2
         else b2)"

text \<open>The normalised axis of line 105.\<close>

definition norm_axis :: "nat list \<Rightarrow> int \<Rightarrow> int" where
  "norm_axis shape axis = (if axis < 0 then int (length shape) + axis else axis)"

text \<open>
  \<open>sort_ir\<close>: the axis is normalised once (line 105), the swap index buffer is required
  when an index buffer is given (line 120), and \<open>shape[axis]\<close> is read at line 126.
  \<open>dt\<close> is the element type of the index buffers. The buffer \<open>data\<close> is only read:
  every store goes to the output and swap buffers.
\<close>

definition sort_ir ::
  "int \<Rightarrow> nat \<Rightarrow> nat list \<Rightarrow> 'a::linorder list \<Rightarrow> 'a list \<Rightarrow> 'a list \<Rightarrow> int \<Rightarrow> bool \<Rightarrow>
   dtype \<Rightarrow> nat list option \<Rightarrow> nat list option \<Rightarrow> error + 'a bufs" where
  "sort_ir neg_inf_cast max_threads shape data values_out0 values_out_swap0 axis0 is_ascend
     dt indices_out0 indices_out_swap0 =
     (let axis = norm_axis shape axis0 in
      if indices_out0 \<noteq> None \<and> indices_out_swap0 = None then Inl AssertionError
      else case getitem shape axis of
        Inl e \<Rightarrow> Inl e
      | Inr n \<Rightarrow>
          Inr (sort_kernels neg_inf_cast max_threads is_ascend
                 (axis_mul_before shape axis) n (axis_mul_after shape axis) dt data
                 \<lparr>values_out = values_out0, values_out_swap = values_out_swap0,
                  indices_out = indices_out0,
                  indices_out_swap = indices_out_swap0\<rparr>))"

section \<open>Correctness of the merge-sort kernel sequence\<close>

fun insert_ref :: "bool \<Rightarrow> ('a::linorder \<times> 'b) \<Rightarrow> ('a \<times> 'b) list \<Rightarrow> ('a \<times> 'b) list" where
  "insert_ref asc x [] = [x]"
| "insert_ref asc x (y # ys) =
     (if compare asc (fst x) (fst y) then x # y # ys else y # insert_ref asc x ys)"

definition ref_sort :: "bool \<Rightarrow> ('a::linorder \<times> 'b) list \<Rightarrow> ('a \<times> 'b) list" where
  "ref_sort asc xs = foldr (insert_ref asc) xs []"

fun merge_ref :: "bool \<Rightarrow> ('a::linorder \<times> 'b) list \<Rightarrow> ('a \<times> 'b) list \<Rightarrow> ('a \<times> 'b) list" where
  "merge_ref asc [] ys = ys"
| "merge_ref asc xs [] = xs"
| "merge_ref asc (x # xs) (y # ys) =
     (if compare asc (fst x) (fst y) then x # merge_ref asc xs (y # ys)
      else y # merge_ref asc (x # xs) ys)"

lemma compare_trans: "compare asc a b \<Longrightarrow> compare asc b c \<Longrightarrow> compare asc a c"
  by (auto simp: compare_def split: if_splits)

lemma compare_total: "\<not> compare asc a b \<Longrightarrow> compare asc b a"
  by (auto simp: compare_def split: if_splits)

lemma merge_ref_Nil2 [simp]: "merge_ref asc xs [] = xs"
  by (cases xs) simp_all

lemma merge_ref_insert:
  "merge_ref asc (insert_ref asc x A) B = insert_ref asc x (merge_ref asc A B)"
proof (induction asc A B rule: merge_ref.induct)
  case (1 asc ys)
  show ?case by (induction ys) auto
next
  case (2 asc v va)
  show ?case by simp
next
  case (3 asc a as b bs)
  then show ?case
    by (auto dest: compare_trans compare_total)
qed

lemma merge_ref_sort: "merge_ref asc (ref_sort asc xs) (ref_sort asc ys) = ref_sort asc (xs @ ys)"
  by (induction xs) (simp_all add: ref_sort_def merge_ref_insert)

lemma ref_sort_sort_key: "ref_sort True xs = sort_key fst xs"
proof -
  have "insert_ref True x ys = insort_key fst x ys" for x :: "'a \<times> 'b" and ys
    by (induction ys) (simp_all add: compare_def)
  then have "insert_ref True = (insort_key fst :: 'a \<times> 'b \<Rightarrow> _)" by (intro ext)
  then show ?thesis by (simp add: ref_sort_def sort_key_def)
qed

definition run_seg :: "'a list \<Rightarrow> nat list \<Rightarrow> nat \<Rightarrow> nat \<Rightarrow> nat \<Rightarrow> nat \<Rightarrow> ('a \<times> nat) list" where
  "run_seg V SI base stride lo hi =
     map (\<lambda>p. (V ! (base + p * stride), SI ! (base + p * stride))) [lo..<hi]"

lemma run_seg_Cons:
  "lo < hi \<Longrightarrow> run_seg V SI base stride lo hi =
     (V ! (base + lo * stride), SI ! (base + lo * stride)) # run_seg V SI base stride (Suc lo) hi"
  by (simp add: run_seg_def upt_conv_Cons)

lemma run_seg_Nil: "hi \<le> lo \<Longrightarrow> run_seg V SI base stride lo hi = []"
  by (simp add: run_seg_def)

lemma length_run_seg [simp]: "length (run_seg V SI base stride lo hi) = hi - lo"
  by (simp add: run_seg_def)

lemma swap_values_step_tracked:
  assumes "i \<le> middle" "j \<le> end" "i < middle \<or> j < end"
  shows "\<exists>x i' j'.
     merge_ref asc (run_seg V SI base stride i middle) (run_seg V SI base stride j end) =
       x # merge_ref asc (run_seg V SI base stride i' middle) (run_seg V SI base stride j' end)
     \<and> i' \<le> middle \<and> j' \<le> end \<and> (middle - i') + (end - j') + 1 = (middle - i) + (end - j)
     \<and> swap_values asc base stride start middle end V (Some SI) k (i, j, D, Some DI) =
         (i', j', D[base + (k + start) * stride := fst x], Some (DI[base + (k + start) * stride := snd x]))"
proof (cases "i < middle")
  case im: True
  show ?thesis
  proof (cases "j < end")
    case jm: True
    show ?thesis
    proof (cases "compare asc (V ! (base + i * stride)) (V ! (base + j * stride))")
      case True
      show ?thesis
        apply (rule exI[of _ "(V ! (base + i * stride), SI ! (base + i * stride))"], rule exI[of _ "Suc i"], rule exI[of _ "j"])
        using im jm \<open>compare asc (V ! (base + i * stride)) (V ! (base + j * stride))\<close> by (simp add: run_seg_Cons[of i middle] run_seg_Cons[of j "end"] swap_values_def assign_i_def Let_def) arith?
    next
      case False
      show ?thesis
        apply (rule exI[of _ "(V ! (base + j * stride), SI ! (base + j * stride))"], rule exI[of _ "i"], rule exI[of _ "Suc j"])
        using im jm \<open>\<not> compare asc (V ! (base + i * stride)) (V ! (base + j * stride))\<close> by (simp add: run_seg_Cons[of i middle] run_seg_Cons[of j "end"] swap_values_def assign_j_def Let_def) arith?
    qed
  next
    case False
    show ?thesis
      apply (rule exI[of _ "(V ! (base + i * stride), SI ! (base + i * stride))"], rule exI[of _ "Suc i"], rule exI[of _ "j"])
      using im assms \<open>\<not> j < end\<close> by (simp add: run_seg_Cons[of i middle] run_seg_Nil swap_values_def assign_i_def Let_def) arith?
  qed
next
  case False
  with assms have "j < end" "i = middle" by auto
  show ?thesis
    apply (rule exI[of _ "(V ! (base + j * stride), SI ! (base + j * stride))"], rule exI[of _ "i"], rule exI[of _ "Suc j"])
    using \<open>j < end\<close> \<open>i = middle\<close> by (simp add: run_seg_Cons[of j "end"] run_seg_Nil swap_values_def assign_j_def Let_def) arith?
qed

lemma merge_loop_tracked:
  assumes "0 < stride"
  shows "i \<le> middle \<Longrightarrow> j \<le> end \<Longrightarrow> cnt = (middle - i) + (end - j) \<Longrightarrow> length DI = length D \<Longrightarrow>
     (\<forall>q<cnt. base + (k0 + q + start) * stride < length D) \<Longrightarrow>
     \<exists>i' j' D' DI'.
        fold (swap_values asc base stride start middle end V (Some SI)) [k0..<k0 + cnt]
          (i, j, D, Some DI) = (i', j', D', Some DI')
      \<and> length D' = length D \<and> length DI' = length DI
      \<and> (\<forall>q<cnt. (D' ! (base + (k0 + q + start) * stride), DI' ! (base + (k0 + q + start) * stride)) =
            merge_ref asc (run_seg V SI base stride i middle) (run_seg V SI base stride j end) ! q)
      \<and> (\<forall>a. (\<forall>q<cnt. a \<noteq> base + (k0 + q + start) * stride) \<longrightarrow> D' ! a = D ! a \<and> DI' ! a = DI ! a)"
proof (induction cnt arbitrary: i j k0 D DI)
  case 0
  then show ?case by simp
next
  case (Suc cnt)
  let ?M = "merge_ref asc (run_seg V SI base stride i middle) (run_seg V SI base stride j end)"
  let ?a0 = "base + (k0 + start) * stride"
  from Suc.prems have "i < middle \<or> j < end" by linarith
  from swap_values_step_tracked[OF Suc.prems(1,2) this, of asc V SI base stride start k0 D DI]
  obtain x i1 j1 where
    M0: "?M = x # merge_ref asc (run_seg V SI base stride i1 middle) (run_seg V SI base stride j1 end)" and
    b1: "i1 \<le> middle" "j1 \<le> end" and cnt1: "(middle - i1) + (end - j1) + 1 = (middle - i) + (end - j)" and
    step: "swap_values asc base stride start middle end V (Some SI) k0 (i, j, D, Some DI) =
         (i1, j1, D[?a0 := fst x], Some (DI[?a0 := snd x]))"
    by blast
  define rest where "rest = merge_ref asc (run_seg V SI base stride i1 middle) (run_seg V SI base stride j1 end)"
  have M: "?M = x # rest" using M0 by (simp add: rest_def)
  let ?D1 = "D[?a0 := fst x]" and ?DI1 = "DI[?a0 := snd x]"
  have cnt: "cnt = (middle - i1) + (end - j1)" using cnt1 Suc.prems(3) by linarith
  have len1: "length ?DI1 = length ?D1" using Suc.prems(4) by simp
  have rng: "\<forall>q<cnt. base + (Suc k0 + q + start) * stride < length ?D1"
  proof (intro allI impI)
    fix q assume "q < cnt"
    then have "Suc q < Suc cnt" by simp
    with Suc.prems(5) have "base + (k0 + Suc q + start) * stride < length D" by blast
    then show "base + (Suc k0 + q + start) * stride < length ?D1" by simp
  qed
  from Suc.IH[OF b1 cnt len1 rng]
  obtain i' j' D' DI' where
    f: "fold (swap_values asc base stride start middle end V (Some SI)) [Suc k0..<Suc k0 + cnt]
          (i1, j1, ?D1, Some ?DI1) = (i', j', D', Some DI')" and
    l: "length D' = length ?D1" "length DI' = length ?DI1" and
    v: "\<forall>q<cnt. (D' ! (base + (Suc k0 + q + start) * stride), DI' ! (base + (Suc k0 + q + start) * stride)) = rest ! q" and
    fr: "\<forall>a. (\<forall>q<cnt. a \<noteq> base + (Suc k0 + q + start) * stride) \<longrightarrow> D' ! a = ?D1 ! a \<and> DI' ! a = ?DI1 ! a"
    unfolding rest_def by blast
  have upt: "[k0..<k0 + Suc cnt] = k0 # [Suc k0..<Suc k0 + cnt]"
    by (simp add: upt_conv_Cons)
  have a0: "?a0 < length D" using Suc.prems(5) by (metis add_0_right zero_less_Suc add.assoc add.commute)
  have a0_ne: "\<forall>q<cnt. ?a0 \<noteq> base + (Suc k0 + q + start) * stride"
  proof (intro allI impI)
    fix q
    have "(k0 + start) * stride < (Suc k0 + q + start) * stride" using assms by (simp add: add_mult_distrib)
    then show "?a0 \<noteq> base + (Suc k0 + q + start) * stride" by simp
  qed
  have "fold (swap_values asc base stride start middle end V (Some SI)) [k0..<k0 + Suc cnt]
          (i, j, D, Some DI) = (i', j', D', Some DI')"
    by (simp only: upt fold_simps comp_apply step f)
  moreover have "length D' = length D" "length DI' = length DI" using l by simp_all
  moreover have "\<forall>q<Suc cnt. (D' ! (base + (k0 + q + start) * stride), DI' ! (base + (k0 + q + start) * stride)) = ?M ! q"
  proof (intro allI impI)
    fix q assume q: "q < Suc cnt"
    show "(D' ! (base + (k0 + q + start) * stride), DI' ! (base + (k0 + q + start) * stride)) = ?M ! q"
    proof (cases q)
      case 0
      from fr a0_ne have "D' ! ?a0 = ?D1 ! ?a0 \<and> DI' ! ?a0 = ?DI1 ! ?a0" by blast
      with a0 Suc.prems(4) 0 show ?thesis by (simp add: M)
    next
      case (Suc q')
      with q v have "(D' ! (base + (Suc k0 + q' + start) * stride), DI' ! (base + (Suc k0 + q' + start) * stride)) = rest ! q'"
        by simp
      with Suc show ?thesis by (simp add: M)
    qed
  qed
  moreover have "\<forall>a. (\<forall>q<Suc cnt. a \<noteq> base + (k0 + q + start) * stride) \<longrightarrow> D' ! a = D ! a \<and> DI' ! a = DI ! a"
  proof (intro allI impI)
    fix a assume ne: "\<forall>q<Suc cnt. a \<noteq> base + (k0 + q + start) * stride"
    then have "a \<noteq> ?a0" by (metis add_0_right zero_less_Suc add.assoc add.commute)
    moreover have "\<forall>q<cnt. a \<noteq> base + (Suc k0 + q + start) * stride"
    proof (intro allI impI)
      fix q assume "q < cnt"
      then have "Suc q < Suc cnt" by simp
      with ne have "a \<noteq> base + (k0 + Suc q + start) * stride" by blast
      then show "a \<noteq> base + (Suc k0 + q + start) * stride" by simp
    qed
    ultimately show "D' ! a = D ! a \<and> DI' ! a = DI ! a" using fr by simp
  qed
  ultimately show ?case by blast
qed

definition flip :: "'a bufs \<Rightarrow> 'a bufs" where
  "flip b = \<lparr>values_out = values_out_swap b, values_out_swap = values_out b,
             indices_out = indices_out_swap b, indices_out_swap = indices_out b\<rparr>"

lemma flip_sel [simp]:
  "values_out (flip b) = values_out_swap b" "values_out_swap (flip b) = values_out b"
  "indices_out (flip b) = indices_out_swap b" "indices_out_swap (flip b) = indices_out b"
  by (simp_all add: flip_def)

lemma flip_flip [simp]: "flip (flip b) = b"
  by (simp add: flip_def)

lemma merge_body_odd:
  "merge_body asc base stride start middle end False k (i, j, b) =
     (case merge_body asc base stride start middle end True k (i, j, flip b) of
        (i', j', b') \<Rightarrow> (i', j', flip b'))"
  by (simp add: merge_body_def flip_def split: prod.splits)

lemma fold_merge_body_odd:
  "fold (merge_body asc base stride start middle end False) ks (i, j, b) =
     (case fold (merge_body asc base stride start middle end True) ks (i, j, flip b) of
        (i', j', b') \<Rightarrow> (i', j', flip b'))"
proof (induction ks arbitrary: i j b)
  case Nil
  show ?case by simp
next
  case (Cons k ks)
  obtain i1 j1 b1 where s: "merge_body asc base stride start middle end True k (i, j, flip b) = (i1, j1, b1)"
    by (cases "merge_body asc base stride start middle end True k (i, j, flip b)") auto
  show ?case
    by (simp add: merge_body_odd[of _ _ _ _ _ _ k] s Cons.IH)
qed

lemma bottom_up_merge_odd:
  "bottom_up_merge asc n stride by bz start middle end False b =
     flip (bottom_up_merge asc n stride by bz start middle end True (flip b))"
  by (simp add: bottom_up_merge_def fold_merge_body_odd split: prod.splits)

lemma mergesort_odd:
  "mergesort asc n stride sz width False t b = flip (mergesort asc n stride sz width True t (flip b))"
  by (cases t) (simp add: mergesort_def bottom_up_merge_odd Let_def)

lemma fold_mergesort_odd:
  "fold (mergesort asc n stride sz width False) ts b =
     flip (fold (mergesort asc n stride sz width True) ts (flip b))"
  by (induction ts arbitrary: b) (simp_all add: mergesort_odd[of _ _ _ _ _ _ b for b])

text \<open>Hoisting the buffers out of the loop state.\<close>

lemma merge_body_even:
  "merge_body asc base stride start middle end True k (i, j, b) =
     (case swap_values asc base stride start middle end (values_out b) (indices_out b) k
             (i, j, values_out_swap b, indices_out_swap b) of
        (i', j', d, di) \<Rightarrow> (i', j', b\<lparr>values_out_swap := d, indices_out_swap := di\<rparr>))"
  by (simp add: merge_body_def)

lemma fold_merge_body_even:
  "fold (merge_body asc base stride start middle end True) ks (i, j, b) =
     (case fold (swap_values asc base stride start middle end (values_out b) (indices_out b)) ks
             (i, j, values_out_swap b, indices_out_swap b) of
        (i', j', d, di) \<Rightarrow> (i', j', b\<lparr>values_out_swap := d, indices_out_swap := di\<rparr>))"
proof (induction ks arbitrary: i j b)
  case Nil
  show ?case by simp
next
  case (Cons k ks)
  obtain i1 j1 d1 di1 where s:
    "swap_values asc base stride start middle end (values_out b) (indices_out b) k
       (i, j, values_out_swap b, indices_out_swap b) = (i1, j1, d1, di1)"
    by (metis prod_cases4)
  show ?case
    by (simp add: merge_body_even s Cons.IH)
qed

definition addr :: "nat \<Rightarrow> nat \<Rightarrow> nat \<Rightarrow> nat \<Rightarrow> nat \<Rightarrow> nat" where
  "addr n stride by bz p = (by * n + p) * stride + bz"

lemma addr_base: "by * n * stride + bz + p * stride = addr n stride by bz p"
  by (simp add: addr_def add_mult_distrib)

lemma addr_decode:
  assumes "bz < stride" "p < n"
  shows "addr n stride by bz p mod stride = bz"
    and "addr n stride by bz p div stride mod n = p"
    and "addr n stride by bz p div stride div n = by"
proof -
  show "addr n stride by bz p mod stride = bz" using assms by (simp add: addr_def)
  have d: "addr n stride by bz p div stride = by * n + p" using assms by (simp add: addr_def)
  show "addr n stride by bz p div stride mod n = p" using assms d by simp
  show "addr n stride by bz p div stride div n = by" using assms d by simp
qed

lemma addr_inj:
  assumes "bz < stride" "p < n" "bz' < stride" "p' < n"
    and "addr n stride by bz p = addr n stride by' bz' p'"
  shows "by = by' \<and> bz = bz' \<and> p = p'"
  using addr_decode[OF assms(1,2), of "by"] addr_decode[OF assms(3,4), of by'] assms(5)
  by metis

lemma addr_less:
  assumes "by < before" "p < n" "bz < stride"
  shows "addr n stride by bz p < before * n * stride"
proof -
  have "by * n + p < before * n"
  proof -
    have "by * n + p < by * n + n" using assms by simp
    also have "\<dots> = Suc by * n" by simp
    also have "\<dots> \<le> before * n" using assms by (intro mult_le_mono1) simp
    finally show ?thesis .
  qed
  then have "Suc (by * n + p) * stride \<le> before * n * stride"
    by (intro mult_le_mono1) simp
  moreover have "addr n stride by bz p < Suc (by * n + p) * stride"
    using assms by (simp add: addr_def)
  ultimately show ?thesis by linarith
qed

definition tracked_ok :: "nat \<Rightarrow> 'a bufs \<Rightarrow> bool" where
  "tracked_ok N b \<longleftrightarrow> length (values_out b) = N \<and> length (values_out_swap b) = N \<and>
     (\<exists>io ios. indices_out b = Some io \<and> indices_out_swap b = Some ios \<and>
        length io = N \<and> length ios = N)"

definition out_view :: "'a bufs \<Rightarrow> nat \<Rightarrow> 'a \<times> nat" where
  "out_view b a = (values_out b ! a, the (indices_out b) ! a)"

definition swap_view :: "'a bufs \<Rightarrow> nat \<Rightarrow> 'a \<times> nat" where
  "swap_view b a = (values_out_swap b ! a, the (indices_out_swap b) ! a)"

lemma wf_flip [simp]: "tracked_ok N (flip b) = tracked_ok N b"
  by (auto simp: tracked_ok_def)

lemma view_flip [simp]: "out_view (flip b) = swap_view b" "swap_view (flip b) = out_view b"
  by (auto simp: out_view_def swap_view_def)

definition run_val ::
  "bool \<Rightarrow> nat \<Rightarrow> nat \<Rightarrow> nat \<Rightarrow> 'a::linorder list \<Rightarrow> nat list \<Rightarrow> nat \<Rightarrow> nat \<Rightarrow> 'a \<times> nat" where
  "run_val asc n stride width V SI base p =
     (let start = width * (p div width);
          middle = min (start + width div 2) n;
          end = min (start + width) n
      in merge_ref asc (run_seg V SI base stride start middle) (run_seg V SI base stride middle end)
           ! (p - start))"

lemma mergesort_even_thread:
  fixes b :: "'a::linorder bufs"
  assumes ok: "tracked_ok N b" and N: "N = before * n * stride" and st: "0 < stride"
    and bz: "bz < stride" and byl: "by < before" and w: "0 < width"
    and bdef: "b' = mergesort asc n stride n width True (by, bz, tid) b"
  shows "tracked_ok N b' \<and> values_out b' = values_out b \<and> indices_out b' = indices_out b \<and>
      (\<forall>p. p < n \<longrightarrow> p div width = tid \<longrightarrow> swap_view b' (addr n stride by bz p) =
             run_val asc n stride width (values_out b) (the (indices_out b)) (by * n * stride + bz) p) \<and>
      (\<forall>a. (\<forall>p. p < n \<longrightarrow> p div width = tid \<longrightarrow> a \<noteq> addr n stride by bz p) \<longrightarrow>
           swap_view b' a = swap_view b a)"
proof -
  from ok obtain io ios where io: "indices_out b = Some io" "indices_out_swap b = Some ios"
    and len: "length (values_out b) = N" "length (values_out_swap b) = N" "length io = N" "length ios = N"
    by (auto simp: tracked_ok_def)
  define start where "start = width * tid"
  define middle where "middle = min (start + width div 2) n"
  define "end" where "end = min (start + width) n"
  let ?base = "by * n * stride + bz"
  show ?thesis
  proof (cases "start < n")
    case False
    then have "b' = b" by (simp add: bdef mergesort_def start_def)
    moreover have "\<not> (p < n \<and> p div width = tid)" for p
    proof
      assume "p < n \<and> p div width = tid"
      then have "width * tid \<le> p" "p < n" by auto
      with False show False by (simp add: start_def)
    qed
    ultimately show ?thesis
      using ok by auto
  next
    case True
    have sm: "start \<le> middle" "middle \<le> end" using True by (auto simp: middle_def end_def)
    have en: "end \<le> n" "end \<le> start + width" by (auto simp: end_def)
    have cnt: "end - start = (middle - start) + (end - middle)" using sm by linarith
    have rng: "\<forall>q<end - start. ?base + (0 + q + start) * stride < length (values_out_swap b)"
    proof (intro allI impI)
      fix q assume "q < end - start"
      then have "q + start < n" using en by linarith
      from addr_less[OF byl this bz] show "?base + (0 + q + start) * stride < length (values_out_swap b)"
        by (simp add: len N addr_base)
    qed
    have leq: "length ios = length (values_out_swap b)" using len by simp
    from merge_loop_tracked[where asc=asc and start=start and V="values_out b" and SI=io, OF st sm(1) sm(2) cnt leq rng]
    obtain i' j' D' DI' where
      f: "fold (swap_values asc ?base stride start middle end (values_out b) (Some io))
            [0..<0 + (end - start)] (start, middle, values_out_swap b, Some ios) = (i', j', D', Some DI')"
      and l: "length D' = length (values_out_swap b)" "length DI' = length ios"
      and v: "\<forall>q<end - start. (D' ! (?base + (0 + q + start) * stride), DI' ! (?base + (0 + q + start) * stride)) =
            merge_ref asc (run_seg (values_out b) io ?base stride start middle)
              (run_seg (values_out b) io ?base stride middle end) ! q"
      and fr: "\<forall>a. (\<forall>q<end - start. a \<noteq> ?base + (0 + q + start) * stride) \<longrightarrow>
            D' ! a = values_out_swap b ! a \<and> DI' ! a = ios ! a"
      by blast
    have b': "b' = b\<lparr>values_out_swap := D', indices_out_swap := Some DI'\<rparr>"
      using True f unfolding start_def middle_def end_def
      by (simp add: bdef mergesort_def bottom_up_merge_def Let_def fold_merge_body_even io)
    have run: "p < n \<Longrightarrow> p div width = tid \<Longrightarrow> start \<le> p \<and> p - start < end - start" for p
    proof -
      assume p: "p < n" "p div width = tid"
      have "width * (p div width) \<le> p" by simp
      moreover have "p < width * (p div width) + width"
        using mod_less_divisor[OF w, of p] mult_div_mod_eq[of width p] by linarith
      ultimately show ?thesis using p by (auto simp: start_def end_def)
    qed
    have 1: "swap_view b' (addr n stride by bz p) =
        run_val asc n stride width (values_out b) (the (indices_out b)) ?base p"
      if p: "p < n" "p div width = tid" for p
    proof -
      from run[OF p] have q: "p - start < end - start" and sp: "start \<le> p" by auto
      from v q have "(D' ! (?base + (0 + (p - start) + start) * stride), DI' ! (?base + (0 + (p - start) + start) * stride)) =
            merge_ref asc (run_seg (values_out b) io ?base stride start middle)
              (run_seg (values_out b) io ?base stride middle end) ! (p - start)" by blast
      moreover have "?base + (0 + (p - start) + start) * stride = addr n stride by bz p"
        using sp by (simp add: addr_base)
      ultimately show ?thesis
        using p by (simp add: swap_view_def b' run_val_def io Let_def start_def middle_def end_def)
    qed
    have 2: "swap_view b' a = swap_view b a"
      if ne: "\<forall>p. p < n \<longrightarrow> p div width = tid \<longrightarrow> a \<noteq> addr n stride by bz p" for a
    proof -
      have "\<forall>q<end - start. a \<noteq> ?base + (0 + q + start) * stride"
      proof (intro allI impI)
        fix q assume q: "q < end - start"
        then have "q + start < n" using en by linarith
        moreover have "(q + start) div width = tid"
        proof -
          from q en sm have "q < width" by linarith
          then show ?thesis using w by (simp add: start_def)
        qed
        ultimately have "a \<noteq> addr n stride by bz (q + start)" using ne by blast
        then show "a \<noteq> ?base + (0 + q + start) * stride" by (simp add: addr_base)
      qed
      with fr show ?thesis by (simp add: swap_view_def b' io)
    qed
    have "tracked_ok N b'" using ok l len by (simp add: tracked_ok_def b' io)
    moreover have "values_out b' = values_out b" "indices_out b' = indices_out b" by (simp_all add: b')
    ultimately show ?thesis
      using 1 2 by blast
  qed
qed

lemma fold_threads_even:
  fixes b :: "'a::linorder bufs"
  assumes N: "N = before * n * stride" and st: "0 < stride" and w: "0 < width"
  shows "tracked_ok N b \<Longrightarrow> \<forall>(by, bz, tid)\<in>set ts. by < before \<and> bz < stride \<Longrightarrow>
     tracked_ok N (fold (mergesort asc n stride n width True) ts b) \<and>
     values_out (fold (mergesort asc n stride n width True) ts b) = values_out b \<and>
     indices_out (fold (mergesort asc n stride n width True) ts b) = indices_out b \<and>
     (\<forall>by bz p. by < before \<and> bz < stride \<and> p < n \<longrightarrow>
        swap_view (fold (mergesort asc n stride n width True) ts b) (addr n stride by bz p) =
          (if (by, bz, p div width) \<in> set ts
           then run_val asc n stride width (values_out b) (the (indices_out b)) (by * n * stride + bz) p
           else swap_view b (addr n stride by bz p)))"
proof (induction ts arbitrary: b)
  case Nil
  then show ?case by simp
next
  case (Cons t ts)
  obtain by0 bz0 tid0 where t: "t = (by0, bz0, tid0)" by (cases t) auto
  from Cons.prems(2) t have t_ok: "by0 < before" "bz0 < stride" by auto
  define b1 where "b1 = mergesort asc n stride n width True (by0, bz0, tid0) b"
  note th = mergesort_even_thread[OF Cons.prems(1) N st t_ok(2) t_ok(1) w b1_def]
  from th have wf1: "tracked_ok N b1" and src: "values_out b1 = values_out b" "indices_out b1 = indices_out b"
    by simp_all
  from Cons.prems(2) have ts_ok: "\<forall>(by, bz, tid)\<in>set ts. by < before \<and> bz < stride" by simp
  note ih = Cons.IH[OF wf1 ts_ok]
  have f: "fold (mergesort asc n stride n width True) (t # ts) b =
           fold (mergesort asc n stride n width True) ts b1"
    by (simp add: t b1_def)
  have "swap_view (fold (mergesort asc n stride n width True) ts b1) (addr n stride y z p) =
          (if (y, z, p div width) \<in> set (t # ts)
           then run_val asc n stride width (values_out b) (the (indices_out b)) (y * n * stride + z) p
           else swap_view b (addr n stride y z p))"
    if c: "y < before" "z < stride" "p < n" for y z p
  proof (cases "(y, z, p div width) \<in> set ts")
    case True
    with ih c show ?thesis by (simp add: src)
  next
    case False
    with ih c have e: "swap_view (fold (mergesort asc n stride n width True) ts b1) (addr n stride y z p) =
        swap_view b1 (addr n stride y z p)" by simp
    show ?thesis
    proof (cases "(y, z, p div width) = t")
      case True
      then have "y = by0" "z = bz0" "p div width = tid0" using t by auto
      with th c have "swap_view b1 (addr n stride y z p) =
        run_val asc n stride width (values_out b) (the (indices_out b)) (y * n * stride + z) p"
        by blast
      with e True show ?thesis by simp
    next
      case ne: False
      have "\<forall>p'. p' < n \<longrightarrow> p' div width = tid0 \<longrightarrow> addr n stride y z p \<noteq> addr n stride by0 bz0 p'"
      proof (intro allI impI notI)
        fix p' assume p': "p' < n" "p' div width = tid0"
          and eq: "addr n stride y z p = addr n stride by0 bz0 p'"
        from addr_inj[OF c(2) c(3) t_ok(2) p'(1) eq] p'(2) have "(y, z, p div width) = t"
          by (simp add: t)
        with ne show False by simp
      qed
      with th have "swap_view b1 (addr n stride y z p) = swap_view b (addr n stride y z p)"
        by blast
      with e ne False show ?thesis by simp
    qed
  qed
  with ih show ?case unfolding f by (simp add: src)
qed

lemma set_grid:
  assumes "0 < ntx"
  shows "set (grid ntx nbx nby nbz) = {(by, bz, tid). by < nby \<and> bz < nbz \<and> tid < nbx * ntx}"
proof -
  have tids: "(\<exists>bx<nbx. \<exists>tx<ntx. tid = bx * ntx + tx) \<longleftrightarrow> tid < nbx * ntx" for tid
  proof
    assume "\<exists>bx<nbx. \<exists>tx<ntx. tid = bx * ntx + tx"
    then obtain bx tx where h: "bx < nbx" "tx < ntx" "tid = bx * ntx + tx" by blast
    then have "tid < Suc bx * ntx" by simp
    also have "\<dots> \<le> nbx * ntx" using h by (intro mult_le_mono1) simp
    finally show "tid < nbx * ntx" .
  next
    assume h: "tid < nbx * ntx"
    then have "tid div ntx < nbx" by (simp add: less_mult_imp_div_less)
    moreover have "tid mod ntx < ntx" using assms by simp
    moreover have "tid = tid div ntx * ntx + tid mod ntx" by simp
    ultimately show "\<exists>bx<nbx. \<exists>tx<ntx. tid = bx * ntx + tx" by blast
  qed
  have "set (grid ntx nbx nby nbz) =
      {(by, bz, tid). by < nby \<and> bz < nbz \<and> (\<exists>bx<nbx. \<exists>tx<ntx. tid = bx * ntx + tx)}"
    by (fastforce simp: grid_def)
  then show ?thesis by (simp add: tids)
qed

lemma ceil_div_cover:
  assumes "0 < m"
  shows "a \<le> ceil_div a m * m"
proof -
  have "a + m - 1 < ((a + m - 1) div m) * m + m"
    using assms by (metis add.commute dividend_less_times_div mult.commute)
  then show ?thesis using assms by (simp add: ceil_div_def)
qed

lemma thread_in_grid:
  assumes "0 < max_threads" "0 < width" "p < n" "by < before" "bz < stride"
  shows "(by, bz, p div width) \<in> set (grid max_threads (ceil_div n (width * max_threads)) before stride)"
proof -
  define C where "C = ceil_div n (width * max_threads)"
  have "n \<le> C * (width * max_threads)"
    unfolding C_def using assms by (intro ceil_div_cover) simp
  also have "\<dots> = C * max_threads * width" by simp
  finally have "n \<le> C * max_threads * width" .
  moreover have "p div width * width \<le> p" by simp
  ultimately have "p div width * width < C * max_threads * width"
    using assms(3) by linarith
  then have "p div width < C * max_threads"
    using mult_less_cancel2 by blast
  then show ?thesis using assms by (simp add: set_grid C_def)
qed

definition orig_seg :: "dtype \<Rightarrow> 'a list \<Rightarrow> nat \<Rightarrow> nat \<Rightarrow> nat \<Rightarrow> nat \<Rightarrow> nat \<Rightarrow> nat \<Rightarrow> ('a \<times> nat) list" where
  "orig_seg dt data n stride by bz lo hi =
     map (\<lambda>p. (data ! addr n stride by bz p, cast_index dt p)) [lo..<hi]"

definition view_seg :: "(nat \<Rightarrow> 'a \<times> nat) \<Rightarrow> nat \<Rightarrow> nat \<Rightarrow> nat \<Rightarrow> nat \<Rightarrow> nat \<Rightarrow> nat \<Rightarrow> ('a \<times> nat) list" where
  "view_seg f n stride by bz lo hi = map (\<lambda>p. f (addr n stride by bz p)) [lo..<hi]"

lemma orig_seg_append:
  "lo \<le> mid \<Longrightarrow> mid \<le> hi \<Longrightarrow>
     orig_seg dt data n stride by bz lo mid @ orig_seg dt data n stride by bz mid hi =
     orig_seg dt data n stride by bz lo hi"
  unfolding orig_seg_def map_append[symmetric]
  by (metis le_Suc_ex upt_add_eq_append)

lemma run_seg_view:
  "run_seg (values_out b) (the (indices_out b)) (by * n * stride + bz) stride lo hi =
     view_seg (out_view b) n stride by bz lo hi"
  by (simp add: run_seg_def view_seg_def out_view_def addr_base)

definition runs_sorted ::
  "bool \<Rightarrow> nat \<Rightarrow> nat \<Rightarrow> nat \<Rightarrow> nat \<Rightarrow> dtype \<Rightarrow> 'a::linorder list \<Rightarrow> (nat \<Rightarrow> 'a \<times> nat) \<Rightarrow> bool" where
  "runs_sorted asc before n stride w dt data f \<longleftrightarrow>
     (\<forall>by bz t. by < before \<and> bz < stride \<and> w * t < n \<longrightarrow>
        view_seg f n stride by bz (w * t) (min (w * t + w) n) =
        ref_sort asc (orig_seg dt data n stride by bz (w * t) (min (w * t + w) n)))"

lemma length_merge_ref [simp]: "length (merge_ref asc xs ys) = length xs + length ys"
  by (induction asc xs ys rule: merge_ref.induct) simp_all

lemma ref_sort_Nil [simp]: "ref_sort asc [] = []"
  by (simp add: ref_sort_def)

lemma merge_round_even:
  fixes b :: "'a::linorder bufs"
  assumes ok: "tracked_ok N b" and N: "N = before * n * stride" and st: "0 < stride" and w: "0 < w"
    and mt: "0 < max_threads"
    and inv: "runs_sorted asc before n stride w dt data (out_view b)"
    and b': "b' = fold (mergesort asc n stride n (2 * w) True)
               (grid max_threads (ceil_div n (2 * w * max_threads)) before stride) b"
  shows "tracked_ok N b' \<and> runs_sorted asc before n stride (2 * w) dt data (swap_view b')"
proof -
  let ?ts = "grid max_threads (ceil_div n (2 * w * max_threads)) before stride"
  have ts_ok: "\<forall>(by, bz, tid)\<in>set ?ts. by < before \<and> bz < stride"
    using mt by (auto simp: set_grid)
  have w2: "0 < 2 * w" using w by simp
  note F = fold_threads_even[OF N st w2 ok ts_ok, of asc, folded b']
  have cell: "swap_view b' (addr n stride y z p) =
      run_val asc n stride (2 * w) (values_out b) (the (indices_out b)) (y * n * stride + z) p"
    if "y < before" "z < stride" "p < n" for y z p
    using F that thread_in_grid[OF mt w2 that(3) that(1) that(2)] by simp
  have "view_seg (swap_view b') n stride y z (2 * w * t) (min (2 * w * t + 2 * w) n) =
        ref_sort asc (orig_seg dt data n stride y z (2 * w * t) (min (2 * w * t + 2 * w) n))"
    if c: "y < before" "z < stride" "2 * w * t < n" for y z t
  proof -
    define start where "start = 2 * w * t"
    define middle where "middle = min (start + w) n"
    define "end" where "end = min (start + 2 * w) n"
    have ord: "start \<le> middle" "middle \<le> end" "end \<le> n" "start < n"
      using c by (auto simp: start_def middle_def end_def)
    let ?L = "view_seg (out_view b) n stride y z start middle"
    let ?R = "view_seg (out_view b) n stride y z middle end"
    have L: "?L = ref_sort asc (orig_seg dt data n stride y z start middle)"
    proof -
      have "w * (2 * t) < n" using c by (simp add: mult.assoc mult.left_commute)
      with inv c have "view_seg (out_view b) n stride y z (w * (2 * t)) (min (w * (2 * t) + w) n) =
        ref_sort asc (orig_seg dt data n stride y z (w * (2 * t)) (min (w * (2 * t) + w) n))"
        unfolding runs_sorted_def by blast
      moreover have "w * (2 * t) = start" by (simp add: start_def)
      ultimately show ?thesis by (simp add: middle_def)
    qed
    have R: "?R = ref_sort asc (orig_seg dt data n stride y z middle end)"
    proof (cases "start + w < n")
      case True
      then have m: "middle = w * (2 * t + 1)" by (simp add: middle_def start_def)
      with True have "w * (2 * t + 1) < n" by (simp add: middle_def start_def)
      with inv c have "view_seg (out_view b) n stride y z (w * (2 * t + 1)) (min (w * (2 * t + 1) + w) n) =
        ref_sort asc (orig_seg dt data n stride y z (w * (2 * t + 1)) (min (w * (2 * t + 1) + w) n))"
        unfolding runs_sorted_def by blast
      moreover have "min (w * (2 * t + 1) + w) n = end" by (simp add: end_def start_def)
      ultimately show ?thesis by (simp add: m)
    next
      case False
      then have "middle = n" "end = n" by (auto simp: middle_def end_def)
      then show ?thesis by (simp add: view_seg_def orig_seg_def)
    qed
    have "view_seg (swap_view b') n stride y z start end = merge_ref asc ?L ?R"
    proof (rule nth_equalityI)
      show "length (view_seg (swap_view b') n stride y z start end) = length (merge_ref asc ?L ?R)"
        using ord by (simp add: view_seg_def)
    next
      fix q assume "q < length (view_seg (swap_view b') n stride y z start end)"
      then have q: "q < end - start" by (simp add: view_seg_def)
      then have p: "start + q < n" using ord by linarith
      have d: "(start + q) div (2 * w) = t"
      proof -
        have "q < 2 * w" using q by (simp add: end_def)
        then show ?thesis using w by (simp add: start_def)
      qed
      have "view_seg (swap_view b') n stride y z start end ! q = swap_view b' (addr n stride y z (start + q))"
        using q by (simp add: view_seg_def)
      also have "\<dots> = run_val asc n stride (2 * w) (values_out b) (the (indices_out b)) (y * n * stride + z) (start + q)"
        using c p by (intro cell)
      also have "\<dots> = merge_ref asc ?L ?R ! q"
        using w by (simp add: run_val_def d run_seg_view Let_def start_def[symmetric] middle_def end_def)
      finally show "view_seg (swap_view b') n stride y z start end ! q = merge_ref asc ?L ?R ! q" .
    qed
    also have "\<dots> = ref_sort asc (orig_seg dt data n stride y z start middle @ orig_seg dt data n stride y z middle end)"
      by (simp add: L R merge_ref_sort)
    also have "\<dots> = ref_sort asc (orig_seg dt data n stride y z start end)"
      using ord by (simp add: orig_seg_append)
    finally show ?thesis by (simp add: start_def end_def)
  qed
  then have "runs_sorted asc before n stride (2 * w) dt data (swap_view b')"
    unfolding runs_sorted_def by blast
  with F show ?thesis by simp
qed

lemma seed_fold:
  fixes b :: "'a bufs"
  assumes N: "N = before * n * stride"
  shows "tracked_ok N b \<Longrightarrow> \<forall>(by, bz, tid)\<in>set ts. by < before \<and> bz < stride \<Longrightarrow>
     tracked_ok N (fold (seed_thread n stride dt data) ts b) \<and>
     (\<forall>by bz p. by < before \<and> bz < stride \<and> p < n \<longrightarrow>
        out_view (fold (seed_thread n stride dt data) ts b) (addr n stride by bz p) =
          (if (by, bz, p) \<in> set ts then (data ! addr n stride by bz p, cast_index dt p)
           else out_view b (addr n stride by bz p)))"
proof (induction ts arbitrary: b)
  case Nil
  then show ?case by simp
next
  case (Cons t ts)
  obtain by0 bz0 tid0 where t: "t = (by0, bz0, tid0)" by (cases t) auto
  from Cons.prems(2) t have t_ok: "by0 < before" "bz0 < stride" by auto
  from Cons.prems(1) obtain io ios where io: "indices_out b = Some io" "indices_out_swap b = Some ios"
    and len: "length (values_out b) = N" "length (values_out_swap b) = N" "length io = N" "length ios = N"
    by (auto simp: tracked_ok_def)
  define b1 where "b1 = seed_thread n stride dt data (by0, bz0, tid0) b"
  have wf1: "tracked_ok N b1"
    using Cons.prems(1) by (auto simp: b1_def seed_thread_def tracked_ok_def Let_def)
  have step: "out_view b1 (addr n stride y z p) =
      (if (y, z, p) = t then (data ! addr n stride y z p, cast_index dt p)
       else out_view b (addr n stride y z p))"
    if c: "y < before" "z < stride" "p < n" for y z p
  proof (cases "tid0 < n")
    case False
    then have "b1 = b" by (simp add: b1_def seed_thread_def)
    moreover have "(y, z, p) \<noteq> t" using False c t by auto
    ultimately show ?thesis by simp
  next
    case True
    have a0: "addr n stride by0 bz0 tid0 < N" using addr_less[OF t_ok(1) True t_ok(2)] N by simp
    have b1: "b1 = b\<lparr>values_out := (values_out b)[addr n stride by0 bz0 tid0 := data ! addr n stride by0 bz0 tid0],
                    indices_out := Some (io[addr n stride by0 bz0 tid0 := cast_index dt tid0])\<rparr>"
      using True by (simp add: b1_def seed_thread_def addr_def io Let_def)
    show ?thesis
    proof (cases "(y, z, p) = t")
      case True
      then show ?thesis using a0 len by (simp add: b1 out_view_def t)
    next
      case False
      then have "addr n stride y z p \<noteq> addr n stride by0 bz0 tid0"
        using addr_inj[OF c(2) c(3) t_ok(2) True] t by auto
      then show ?thesis using False by (simp add: b1 out_view_def io)
    qed
  qed
  from Cons.prems(2) have ts_ok: "\<forall>(by, bz, tid)\<in>set ts. by < before \<and> bz < stride" by simp
  note ih = Cons.IH[OF wf1 ts_ok]
  have f: "fold (seed_thread n stride dt data) (t # ts) b = fold (seed_thread n stride dt data) ts b1"
    by (simp add: t b1_def)
  show ?case unfolding f using ih step by auto
qed

lemma writeback_fold:
  fixes b :: "'a bufs"
  assumes N: "N = before * n * stride"
  shows "tracked_ok N b \<Longrightarrow> \<forall>(by, bz, tid)\<in>set ts. by < before \<and> bz < stride \<Longrightarrow>
     tracked_ok N (fold (writeback_thread n stride) ts b) \<and>
     (\<forall>by bz p. by < before \<and> bz < stride \<and> p < n \<longrightarrow>
        out_view (fold (writeback_thread n stride) ts b) (addr n stride by bz p) =
          (if (by, bz, p) \<in> set ts then swap_view b (addr n stride by bz p)
           else out_view b (addr n stride by bz p)))"
proof (induction ts arbitrary: b)
  case Nil
  then show ?case by simp
next
  case (Cons t ts)
  obtain by0 bz0 tid0 where t: "t = (by0, bz0, tid0)" by (cases t) auto
  from Cons.prems(2) t have t_ok: "by0 < before" "bz0 < stride" by auto
  from Cons.prems(1) obtain io ios where io: "indices_out b = Some io" "indices_out_swap b = Some ios"
    and len: "length (values_out b) = N" "length (values_out_swap b) = N" "length io = N" "length ios = N"
    by (auto simp: tracked_ok_def)
  define b1 where "b1 = writeback_thread n stride (by0, bz0, tid0) b"
  have wf1: "tracked_ok N b1"
    using Cons.prems(1) by (auto simp: b1_def writeback_thread_def tracked_ok_def Let_def)
  have sw: "swap_view b1 = swap_view b"
    by (auto simp: b1_def writeback_thread_def swap_view_def Let_def)
  have step: "out_view b1 (addr n stride y z p) =
      (if (y, z, p) = t then swap_view b (addr n stride y z p) else out_view b (addr n stride y z p))"
    if c: "y < before" "z < stride" "p < n" for y z p
  proof (cases "tid0 < n")
    case False
    then have "b1 = b" by (simp add: b1_def writeback_thread_def)
    moreover have "(y, z, p) \<noteq> t" using False c t by auto
    ultimately show ?thesis by simp
  next
    case True
    have a0: "addr n stride by0 bz0 tid0 < N" using addr_less[OF t_ok(1) True t_ok(2)] N by simp
    have b1: "b1 = b\<lparr>values_out := (values_out b)[addr n stride by0 bz0 tid0 := values_out_swap b ! addr n stride by0 bz0 tid0],
                    indices_out := Some (io[addr n stride by0 bz0 tid0 := ios ! addr n stride by0 bz0 tid0])\<rparr>"
      using True by (simp add: b1_def writeback_thread_def addr_def io Let_def)
    show ?thesis
    proof (cases "(y, z, p) = t")
      case True
      then show ?thesis using a0 len by (simp add: b1 out_view_def swap_view_def t io)
    next
      case False
      then have "addr n stride y z p \<noteq> addr n stride by0 bz0 tid0"
        using addr_inj[OF c(2) c(3) t_ok(2) True] t by auto
      then show ?thesis using False by (simp add: b1 out_view_def io)
    qed
  qed
  from Cons.prems(2) have ts_ok: "\<forall>(by, bz, tid)\<in>set ts. by < before \<and> bz < stride" by simp
  note ih = Cons.IH[OF wf1 ts_ok]
  have f: "fold (writeback_thread n stride) (t # ts) b = fold (writeback_thread n stride) ts b1"
    by (simp add: t b1_def)
  show ?case unfolding f using ih step by (auto simp: sw)
qed

lemma seed_cell_in_grid:
  assumes "0 < max_threads" "p < n" "by < before" "bz < stride"
  shows "(by, bz, p) \<in> set (grid max_threads (ceil_div n max_threads) before stride)"
  using assms ceil_div_cover[OF assms(1), of n] by (simp add: set_grid)

lemma grid_ok:
  "0 < max_threads \<Longrightarrow> \<forall>(by, bz, tid)\<in>set (grid max_threads nbx before stride). by < before \<and> bz < stride"
  by (auto simp: set_grid)

lemma ceil_log2_bound: "n \<le> 2 ^ ceil_log2 n"
proof (induction n rule: ceil_log2.induct)
  case (1 n)
  show ?case
  proof (cases "n \<le> 1")
    case True
    then show ?thesis by (simp add: ceil_log2.simps[of n])
  next
    case False
    with 1 have "(n + 1) div 2 \<le> 2 ^ ceil_log2 ((n + 1) div 2)" by simp
    then have "n \<le> 2 * 2 ^ ceil_log2 ((n + 1) div 2)" by linarith
    with False show ?thesis by (simp add: ceil_log2.simps[of n])
  qed
qed

definition round_inv ::
  "nat \<Rightarrow> bool \<Rightarrow> nat \<Rightarrow> nat \<Rightarrow> nat \<Rightarrow> dtype \<Rightarrow> 'a::linorder list \<Rightarrow> nat \<Rightarrow> 'a bufs \<Rightarrow> bool" where
  "round_inv N asc before n stride dt data r b \<longleftrightarrow>
     tracked_ok N b \<and> runs_sorted asc before n stride (2 ^ r) dt data (if even r then out_view b else swap_view b)"

lemma merge_round_inv:
  fixes b :: "'a::linorder bufs"
  assumes N: "N = before * n * stride" and st: "0 < stride" and mt: "0 < max_threads"
    and inv: "round_inv N asc before n stride dt data r b"
  shows "round_inv N asc before n stride dt data (Suc r) (merge_round max_threads asc before n stride r b)"
proof (cases "even r")
  case True
  from inv True have ok: "tracked_ok N b" and rs: "runs_sorted asc before n stride (2 ^ r) dt data (out_view b)"
    by (simp_all add: round_inv_def)
  have m: "merge_round max_threads asc before n stride r b =
      fold (mergesort asc n stride n (2 * 2 ^ r) True)
        (grid max_threads (ceil_div n (2 * 2 ^ r * max_threads)) before stride) b"
    using True by (simp add: merge_round_def Let_def even_iff_mod_2_eq_zero)
  from merge_round_even[OF ok N st _ mt rs m] True show ?thesis
    by (simp add: round_inv_def)
next
  case False
  from inv False have ok: "tracked_ok N (flip b)" and rs: "runs_sorted asc before n stride (2 ^ r) dt data (out_view (flip b))"
    by (simp_all add: round_inv_def)
  define b'' where "b'' = fold (mergesort asc n stride n (2 * 2 ^ r) True)
        (grid max_threads (ceil_div n (2 * 2 ^ r * max_threads)) before stride) (flip b)"
  have m: "merge_round max_threads asc before n stride r b = flip b''"
    using False by (simp add: merge_round_def Let_def even_iff_mod_2_eq_zero fold_mergesort_odd b''_def)
  from merge_round_even[OF ok N st _ mt rs b''_def] False show ?thesis
    by (simp add: round_inv_def m)
qed

lemma merge_rounds_inv:
  fixes b :: "'a::linorder bufs"
  assumes N: "N = before * n * stride" and st: "0 < stride" and mt: "0 < max_threads"
    and inv: "round_inv N asc before n stride dt data 0 b"
  shows "round_inv N asc before n stride dt data L
           (fold (merge_round max_threads asc before n stride) [0..<L] b)"
proof (induction L)
  case 0
  show ?case using inv by simp
next
  case (Suc L)
  show ?case using merge_round_inv[OF N st mt Suc.IH] by simp
qed

lemma ref_sort_single [simp]: "ref_sort asc [x] = [x]"
  by (simp add: ref_sort_def)

lemma view_seg_cong:
  "(\<And>p. lo \<le> p \<Longrightarrow> p < hi \<Longrightarrow> f (addr n stride by bz p) = g (addr n stride by bz p)) \<Longrightarrow>
     view_seg f n stride by bz lo hi = view_seg g n stride by bz lo hi"
  by (simp add: view_seg_def)

lemma sort_kernels_tracked:
  fixes b :: "'a::linorder bufs"
  assumes N: "N = before * n * stride" and st: "0 < stride" and mt: "0 < max_threads"
    and ok: "tracked_ok N b" and y: "y < before" and z: "z < stride" and npos: "0 < n"
  shows "tracked_ok N (sort_kernels ninf max_threads asc before n stride dt data b) \<and>
     view_seg (out_view (sort_kernels ninf max_threads asc before n stride dt data b)) n stride y z 0 n =
       ref_sort asc (orig_seg dt data n stride y z 0 n)"
proof -
  let ?g = "grid max_threads (ceil_div n max_threads) before stride"
  define L where "L = ceil_log2 n"
  define b1 where "b1 = fold (seed_thread n stride dt data) ?g b"
  define b2 where "b2 = fold (merge_round max_threads asc before n stride) [0..<L] b1"
  define b3 where "b3 = (if L mod 2 = 1 then fold (writeback_thread n stride) ?g b2 else b2)"
  have r: "sort_kernels ninf max_threads asc before n stride dt data b = b3"
  proof -
    have "(int (ceil_log2 n) mod 2 = 1) = (ceil_log2 n mod 2 = 1)" by presburger
    then show ?thesis
      using npos by (simp add: sort_kernels_def lim_rounds_def Let_def b3_def b2_def b1_def L_def)
  qed
  note S = seed_fold[where data=data and dt=dt, OF N ok grid_ok[OF mt, where nbx="ceil_div n max_threads"], folded b1_def]
  have wf1: "tracked_ok N b1" using S by simp
  have seed: "out_view b1 (addr n stride y' z' p) = (data ! addr n stride y' z' p, cast_index dt p)"
    if "y' < before" "z' < stride" "p < n" for y' z' p
    using S that seed_cell_in_grid[OF mt that(3) that(1) that(2)] by simp
  have "runs_sorted asc before n stride 1 dt data (out_view b1)"
    unfolding runs_sorted_def
  proof (intro allI impI)
    fix y' z' t assume c: "y' < before \<and> z' < stride \<and> 1 * t < n"
    then have "min (1 * t + 1) n = Suc t" by simp
    then show "view_seg (out_view b1) n stride y' z' (1 * t) (min (1 * t + 1) n) =
        ref_sort asc (orig_seg dt data n stride y' z' (1 * t) (min (1 * t + 1) n))"
      using c seed[of y' z' t] by (simp add: view_seg_def orig_seg_def)
  qed
  with wf1 have "round_inv N asc before n stride dt data 0 b1" by (simp add: round_inv_def)
  from merge_rounds_inv[OF N st mt this, where L=L, folded b2_def]
  have inv2: "round_inv N asc before n stride dt data L b2" .
  then have wf2: "tracked_ok N b2" by (simp add: round_inv_def)
  define g where "g = (if even L then out_view b2 else swap_view b2)"
  have rs: "runs_sorted asc before n stride (2 ^ L) dt data g"
    using inv2 by (simp add: round_inv_def g_def)
  have wf3: "tracked_ok N b3" and fin: "\<And>p. p < n \<Longrightarrow> out_view b3 (addr n stride y z p) = g (addr n stride y z p)"
  proof -
    show "tracked_ok N b3"
      using wf2 writeback_fold[OF N wf2 grid_ok[OF mt, where nbx="ceil_div n max_threads"]]
      by (simp add: b3_def)
    fix p assume p: "p < n"
    show "out_view b3 (addr n stride y z p) = g (addr n stride y z p)"
    proof (cases "even L")
      case True
      then show ?thesis by (simp add: b3_def g_def even_iff_mod_2_eq_zero)
    next
      case False
      then have "L mod 2 = 1" by (simp add: odd_iff_mod_2_eq_one)
      then show ?thesis
        using False writeback_fold[OF N wf2 grid_ok[OF mt, where nbx="ceil_div n max_threads"]]
          seed_cell_in_grid[OF mt p y z] y z p
        by (simp add: b3_def g_def)
    qed
  qed
  have "view_seg (out_view b3) n stride y z 0 n = ref_sort asc (orig_seg dt data n stride y z 0 n)"
  proof (cases "n = 0")
    case True
    then show ?thesis by (simp add: view_seg_def orig_seg_def)
  next
    case False
    have "n \<le> 2 ^ L" unfolding L_def by (rule ceil_log2_bound)
    then have m: "min (2 ^ L * 0 + 2 ^ L) n = n" by simp
    from rs y z False have "view_seg g n stride y z (2 ^ L * 0) (min (2 ^ L * 0 + 2 ^ L) n) =
        ref_sort asc (orig_seg dt data n stride y z (2 ^ L * 0) (min (2 ^ L * 0 + 2 ^ L) n))"
      unfolding runs_sorted_def by (metis mult_0_right neq0_conv)
    then have "view_seg g n stride y z 0 n = ref_sort asc (orig_seg dt data n stride y z 0 n)"
      unfolding m by simp
    moreover have "view_seg (out_view b3) n stride y z 0 n = view_seg g n stride y z 0 n"
      by (rule view_seg_cong) (simp add: fin)
    ultimately show ?thesis by simp
  qed
  with wf3 show ?thesis by (simp add: r)
qed

definition forget :: "'a bufs \<Rightarrow> 'a bufs" where
  "forget b = b\<lparr>indices_out := None, indices_out_swap := None\<rparr>"

lemma fold_commute:
  "(\<And>x s. f x (h s) = h (g x s)) \<Longrightarrow> fold f xs (h s) = h (fold g xs s)"
  by (induction xs arbitrary: s) simp_all

lemma forget_sel [simp]:
  "values_out (forget b) = values_out b" "values_out_swap (forget b) = values_out_swap b"
  "indices_out (forget b) = None" "indices_out_swap (forget b) = None"
  by (simp_all add: forget_def)

lemma swap_values_None:
  "swap_values asc base stride start middle end src None k (i, j, d, None) =
     (case swap_values asc base stride start middle end src si k (i, j, d, di) of
        (i', j', d', di') \<Rightarrow> (i', j', d', None))"
  by (simp add: swap_values_def assign_i_def assign_j_def Let_def)

lemma merge_body_forget:
  "merge_body asc base stride start middle end ev k (i, j, forget b) =
     (case merge_body asc base stride start middle end ev k (i, j, b) of
        (i', j', b') \<Rightarrow> (i', j', forget b'))"
proof (cases ev)
  case True
  obtain i' j' d' di' where s: "swap_values asc base stride start middle end (values_out b) (indices_out b) k
      (i, j, values_out_swap b, indices_out_swap b) = (i', j', d', di')"
    by (metis prod_cases4)
  show ?thesis using True
    by (simp add: merge_body_def swap_values_None[where si="indices_out b" and di="indices_out_swap b"] s)
      (simp add: forget_def)?
next
  case False
  obtain i' j' d' di' where s: "swap_values asc base stride start middle end (values_out_swap b) (indices_out_swap b) k
      (i, j, values_out b, indices_out b) = (i', j', d', di')"
    by (metis prod_cases4)
  show ?thesis using False
    by (simp add: merge_body_def swap_values_None[where si="indices_out_swap b" and di="indices_out b"] s)
      (simp add: forget_def)?
qed

lemma merge_body_forget':
  "merge_body asc base stride start middle end ev k (map_prod id (map_prod id forget) st) =
     map_prod id (map_prod id forget) (merge_body asc base stride start middle end ev k st)"
  by (cases st) (simp add: merge_body_forget split: prod.splits)

lemma bottom_up_merge_forget:
  "bottom_up_merge asc n stride by bz start middle end ev (forget b) =
     forget (bottom_up_merge asc n stride by bz start middle end ev b)"
proof -
  have "fold (merge_body asc (by * n * stride + bz) stride start middle end ev) [0..<end - start]
          (map_prod id (map_prod id forget) (start, middle, b)) =
        map_prod id (map_prod id forget)
          (fold (merge_body asc (by * n * stride + bz) stride start middle end ev) [0..<end - start]
             (start, middle, b))"
    by (rule fold_commute) (rule merge_body_forget')
  then show ?thesis
    by (simp add: bottom_up_merge_def split: prod.splits)
qed

lemma mergesort_forget:
  "mergesort asc n stride sz width ev t (forget b) = forget (mergesort asc n stride sz width ev t b)"
  by (cases t) (simp add: mergesort_def bottom_up_merge_forget Let_def)

lemma merge_round_forget:
  "merge_round max_threads asc before n stride r (forget b) =
     forget (merge_round max_threads asc before n stride r b)"
  unfolding merge_round_def Let_def by (rule fold_commute) (rule mergesort_forget)

lemma seed_thread_forget:
  "seed_thread n stride dt data t (forget b) = forget (seed_thread n stride dt data t b)"
  by (cases t) (simp add: seed_thread_def forget_def Let_def)

lemma writeback_thread_forget:
  "writeback_thread n stride t (forget b) = forget (writeback_thread n stride t b)"
  by (cases t) (simp add: writeback_thread_def forget_def Let_def)

lemma sort_kernels_forget:
  "sort_kernels ninf max_threads asc before n stride dt data (forget b) =
     forget (sort_kernels ninf max_threads asc before n stride dt data b)"
proof -
  let ?g = "grid max_threads (ceil_div n max_threads) before stride"
  have 1: "fold (seed_thread n stride dt data) ?g (forget b) = forget (fold (seed_thread n stride dt data) ?g b)"
    by (rule fold_commute) (rule seed_thread_forget)
  have 2: "fold (merge_round max_threads asc before n stride) ks (forget c) =
      forget (fold (merge_round max_threads asc before n stride) ks c)" for ks c
    by (rule fold_commute) (rule merge_round_forget)
  have 3: "fold (writeback_thread n stride) ?g (forget c) = forget (fold (writeback_thread n stride) ?g c)" for c
    by (rule fold_commute) (rule writeback_thread_forget)
  show ?thesis
    by (simp add: sort_kernels_def Let_def 1 2 3)
qed

lemma sort_kernels_values_forget:
  "values_out (sort_kernels ninf max_threads asc before n stride dt data b) =
   values_out (sort_kernels ninf max_threads asc before n stride dt data (forget b))"
  by (simp add: sort_kernels_forget)

lemma axis_mul_before_fold:
  "0 \<le> axis \<Longrightarrow>
   fold (\<lambda>(i, v) m. if int i < axis then m * v else m) (enumerate k shape) m0 =
     m0 * prod_list (take (nat axis - k) shape)"
proof (induction shape arbitrary: k m0)
  case Nil
  show ?case by simp
next
  case (Cons x xs)
  show ?case
  proof (cases "int k < axis")
    case True
    then have "nat axis - k = Suc (nat axis - Suc k)" by linarith
    then show ?thesis using True Cons by (simp add: mult.assoc)
  next
    case False
    with Cons.prems have "nat axis - k = 0" "nat axis - Suc k = 0" by linarith+
    then show ?thesis using False Cons by simp
  qed
qed

lemma axis_mul_before_eq:
  "0 \<le> axis \<Longrightarrow> axis_mul_before shape axis = prod_list (take (nat axis) shape)"
  using axis_mul_before_fold[of axis 0 shape 1] by (simp add: axis_mul_before_def)

lemma axis_mul_after_fold:
  "0 \<le> axis \<Longrightarrow>
   fold (\<lambda>(i, v) m. if int i < axis then m else if int i > axis then m * v else m)
     (enumerate k shape) m0 = m0 * prod_list (drop (Suc (nat axis) - k) shape)"
proof (induction shape arbitrary: k m0)
  case Nil
  show ?case by simp
next
  case (Cons x xs)
  consider "int k < axis" | "int k = axis" | "int k > axis" by linarith
  then show ?case
  proof cases
    case 1
    then have "Suc (nat axis) - k = Suc (Suc (nat axis) - Suc k)" by linarith
    then show ?thesis using 1 Cons by simp
  next
    case 2
    with Cons.prems have "Suc (nat axis) - k = Suc 0" "Suc (nat axis) - Suc k = 0" by linarith+
    then show ?thesis using 2 Cons by simp
  next
    case 3
    with Cons.prems have "Suc (nat axis) - k = 0" "Suc (nat axis) - Suc k = 0" by linarith+
    then show ?thesis using 3 Cons by (simp add: mult.assoc)
  qed
qed

lemma axis_mul_after_eq:
  "0 \<le> axis \<Longrightarrow> axis_mul_after shape axis = prod_list (drop (Suc (nat axis)) shape)"
  using axis_mul_after_fold[of axis 0 shape 1] by (simp add: axis_mul_after_def)

lemma prod_list_split:
  "a < length shape \<Longrightarrow>
   prod_list shape = prod_list (take a shape) * shape ! a * prod_list (drop (Suc a) shape)"
proof -
  assume "a < length shape"
  then have "shape = take a shape @ shape ! a # drop (Suc a) shape" by (rule id_take_nth_drop)
  then have "prod_list shape = prod_list (take a shape @ shape ! a # drop (Suc a) shape)" by simp
  then show ?thesis by (simp add: mult.assoc)
qed

lemma sort_ir_ok:
  assumes "0 \<le> norm_axis shape axis" "norm_axis shape axis < int (length shape)"
    and "io = None \<or> ios \<noteq> None"
  shows "sort_ir ninf max_threads shape data vo vos axis asc dt io ios =
     Inr (sort_kernels ninf max_threads asc
            (prod_list (take (nat (norm_axis shape axis)) shape))
            (shape ! nat (norm_axis shape axis))
            (prod_list (drop (Suc (nat (norm_axis shape axis))) shape)) dt data
            \<lparr>values_out = vo, values_out_swap = vos, indices_out = io, indices_out_swap = ios\<rparr>)"
  using assms
  by (auto simp: sort_ir_def norm_axis_def getitem_def Let_def axis_mul_before_eq axis_mul_after_eq)

lemma sort_kernels_values:
  fixes b :: "'a::linorder bufs"
  assumes N: "N = before * n * stride" and mt: "0 < max_threads"
    and len: "length (values_out b) = N" "length (values_out_swap b) = N"
    and y: "y < before" and z: "z < stride" and npos: "0 < n"
  shows "map (\<lambda>p. values_out (sort_kernels ninf max_threads asc before n stride dt data b) ! addr n stride y z p) [0..<n] =
     map fst (ref_sort asc (orig_seg dt data n stride y z 0 n))"
proof -
  define bt where "bt = b\<lparr>indices_out := Some (replicate N 0), indices_out_swap := Some (replicate N 0)\<rparr>"
  have ok: "tracked_ok N bt" using len by (simp add: tracked_ok_def bt_def)
  have "forget bt = forget b" by (simp add: forget_def bt_def)
  then have v: "values_out (sort_kernels ninf max_threads asc before n stride dt data b) =
      values_out (sort_kernels ninf max_threads asc before n stride dt data bt)"
    by (metis sort_kernels_values_forget)
  have st: "0 < stride" using z by simp
  from sort_kernels_tracked[OF N st mt ok y z npos, where asc=asc and data=data and dt=dt and ninf=ninf]
  have "view_seg (out_view (sort_kernels ninf max_threads asc before n stride dt data bt)) n stride y z 0 n =
       ref_sort asc (orig_seg dt data n stride y z 0 n)" by simp
  then have "map fst (view_seg (out_view (sort_kernels ninf max_threads asc before n stride dt data bt)) n stride y z 0 n) =
       map fst (ref_sort asc (orig_seg dt data n stride y z 0 n))" by simp
  then show ?thesis by (simp add: v view_seg_def out_view_def comp_def)
qed


lemma mset_insert_ref [simp]: "mset (insert_ref asc x ys) = add_mset x (mset ys)"
  by (induction ys) simp_all

lemma mset_ref_sort [simp]: "mset (ref_sort asc xs) = mset xs"
  by (induction xs) (simp_all add: ref_sort_def)

lemma set_ref_sort [simp]: "set (ref_sort asc xs) = set xs"
  by (metis mset_ref_sort set_mset_mset)

lemma length_ref_sort [simp]: "length (ref_sort asc xs) = length xs"
  by (metis mset_ref_sort size_mset)

lemma length_orig_seg [simp]: "length (orig_seg dt data n stride by bz lo hi) = hi - lo"
  by (simp add: orig_seg_def)

lemma map_snd_orig_seg [simp]:
  "map snd (orig_seg dt data n stride by bz lo hi) = map (cast_index dt) [lo..<hi]"
  by (simp add: orig_seg_def comp_def)


lemma mergesort_even_frame:
  "values_out (mergesort asc n stride sz width True t b) = values_out b \<and>
   indices_out (mergesort asc n stride sz width True t b) = indices_out b"
  by (cases t) (simp add: mergesort_def bottom_up_merge_def fold_merge_body_even Let_def split: prod.splits)

lemma fold_mergesort_even_frame:
  "values_out (fold (mergesort asc n stride sz width True) ts b) = values_out b \<and>
   indices_out (fold (mergesort asc n stride sz width True) ts b) = indices_out b"
  by (induction ts arbitrary: b) (simp_all add: mergesort_even_frame)

lemma merge_round_frame:
  "(even r \<longrightarrow> values_out (merge_round max_threads asc before n stride r b) = values_out b \<and>
              indices_out (merge_round max_threads asc before n stride r b) = indices_out b) \<and>
   (odd r \<longrightarrow> values_out_swap (merge_round max_threads asc before n stride r b) = values_out_swap b \<and>
              indices_out_swap (merge_round max_threads asc before n stride r b) = indices_out_swap b)"
  by (simp add: merge_round_def Let_def even_iff_mod_2_eq_zero fold_mergesort_even_frame
      fold_mergesort_odd)

lemma merge_round_even_cells:
  fixes b :: "'a::linorder bufs"
  assumes "0 < max_threads" "tracked_ok (before * n * stride) b" "y < before" "z < stride" "p < n"
  shows "swap_view (fold (mergesort asc n stride n (2 * 2 ^ r) True)
            (grid max_threads (ceil_div n (2 * 2 ^ r * max_threads)) before stride) b) (addr n stride y z p) =
         run_val asc n stride (2 * 2 ^ r) (values_out b) (the (indices_out b)) (y * n * stride + z) p"
proof -
  have st: "0 < stride" using assms(4) by simp
  have w: "0 < (2::nat) * 2 ^ r" by simp
  note F = fold_threads_even[OF refl st w assms(2) grid_ok[OF assms(1)], of asc
      "ceil_div n (2 * 2 ^ r * max_threads)"]
  show ?thesis
    using F assms thread_in_grid[OF assms(1) w assms(5) assms(3) assms(4)] by simp
qed

lemma merge_round_tracked_ok:
  fixes b :: "'a::linorder bufs"
  assumes N: "N = before * n * stride" and st: "0 < stride" and mt: "0 < max_threads"
    and ok: "tracked_ok N b"
  shows "tracked_ok N (merge_round max_threads asc before n stride r b)"
proof -
  have w: "0 < (2::nat) * 2 ^ r" by simp
  have "tracked_ok N (fold (mergesort asc n stride n (2 * 2 ^ r) True)
      (grid max_threads (ceil_div n (2 * 2 ^ r * max_threads)) before stride) c)"
    if "tracked_ok N c" for c :: "'a bufs"
    using fold_threads_even[OF N st w that grid_ok[OF mt]] by simp
  from this[of b] this[of "flip b"] ok show ?thesis
    by (cases "r mod 2 = 0") (simp_all add: merge_round_def Let_def fold_mergesort_odd)
qed

lemma merge_rounds_tracked_ok:
  fixes b :: "'a::linorder bufs"
  assumes N: "N = before * n * stride" and st: "0 < stride" and mt: "0 < max_threads"
    and ok: "tracked_ok N b"
  shows "tracked_ok N (fold (merge_round max_threads asc before n stride) [0..<L] b)"
  by (induction L) (simp_all add: ok merge_round_tracked_ok[OF N st mt])

definition rounds_result ::
  "int \<Rightarrow> nat \<Rightarrow> bool \<Rightarrow> nat \<Rightarrow> nat \<Rightarrow> nat \<Rightarrow> dtype \<Rightarrow> 'a::linorder list \<Rightarrow> 'a bufs \<Rightarrow> 'a bufs" where
  "rounds_result ninf max_threads asc before n stride dt data b =
     fold (merge_round max_threads asc before n stride) [0..<nat (lim_rounds ninf n)]
       (fold (seed_thread n stride dt data) (grid max_threads (ceil_div n max_threads) before stride) b)"



lemma ceil_log2_le_1 [simp]: "n \<le> 1 \<Longrightarrow> ceil_log2 n = 0"
  by (simp add: ceil_log2.simps[of n])

lemma ceil_log2_2 [simp]: "ceil_log2 2 = 1"
  by (simp add: ceil_log2.simps[of 2])


lemma addr_surj:
  assumes "a < before * n * stride"
  shows "a = addr n stride (a div stride div n) (a mod stride) (a div stride mod n) \<and>
         a div stride div n < before \<and> a mod stride < stride \<and> a div stride mod n < n"
proof -
  have st: "0 < stride" using assms by (cases stride) simp_all
  have n: "0 < n" using assms by (cases n) simp_all
  have "a div stride < before * n" using assms st by (simp add: less_mult_imp_div_less)
  then have "a div stride div n < before" using n by (simp add: less_mult_imp_div_less)
  moreover have "a = addr n stride (a div stride div n) (a mod stride) (a div stride mod n)"
    by (simp add: addr_def)
  ultimately show ?thesis using st n by simp
qed

lemma seed_fold_forget:
  "fold (seed_thread n stride dt data) ts (forget b) = forget (fold (seed_thread n stride dt data) ts b)"
  by (rule fold_commute) (rule seed_thread_forget)

lemma seed_fold_values:
  fixes b :: "'a bufs"
  assumes mt: "0 < max_threads" and len: "length (values_out b) = before * n * stride"
    "length (values_out_swap b) = before * n * stride"
    and ld: "length data = before * n * stride"
  shows "values_out (fold (seed_thread n stride dt data)
            (grid max_threads (ceil_div n max_threads) before stride) b) = data"
proof -
  let ?g = "grid max_threads (ceil_div n max_threads) before stride"
  let ?N = "before * n * stride"
  define bt where "bt = b\<lparr>indices_out := Some (replicate ?N 0), indices_out_swap := Some (replicate ?N 0)\<rparr>"
  have ok: "tracked_ok ?N bt" using len by (simp add: tracked_ok_def bt_def)
  have "forget bt = forget b" by (simp add: forget_def bt_def)
  then have vo: "values_out (fold (seed_thread n stride dt data) ?g b) =
      values_out (fold (seed_thread n stride dt data) ?g bt)"
    by (metis seed_fold_forget forget_sel(1))
  note S = seed_fold[where data=data and dt=dt, OF refl ok grid_ok[OF mt, where nbx="ceil_div n max_threads"]]
  have "values_out (fold (seed_thread n stride dt data) ?g bt) = data"
  proof (rule nth_equalityI)
    show "length (values_out (fold (seed_thread n stride dt data) ?g bt)) = length data"
      using S ld by (simp add: tracked_ok_def)
  next
    fix a assume "a < length (values_out (fold (seed_thread n stride dt data) ?g bt))"
    then have a: "a < ?N" using S by (simp add: tracked_ok_def)
    from addr_surj[OF a] obtain y z p where c: "a = addr n stride y z p" "y < before" "z < stride" "p < n"
      by blast
    with S seed_cell_in_grid[OF mt c(4) c(2) c(3)]
    have "out_view (fold (seed_thread n stride dt data) ?g bt) a = (data ! a, cast_index dt p)" by simp
    then show "values_out (fold (seed_thread n stride dt data) ?g bt) ! a = data ! a"
      by (simp add: out_view_def)
  qed
  then show ?thesis by (simp add: vo)
qed


lemma seed_fold_swap_frame:
  "values_out_swap (fold (seed_thread n stride dt data) ts b) = values_out_swap b \<and>
   indices_out_swap (fold (seed_thread n stride dt data) ts b) = indices_out_swap b"
  by (induction ts arbitrary: b) (auto simp: seed_thread_def Let_def)

lemma seed_fold_indices:
  fixes b :: "'a bufs"
  assumes mt: "0 < max_threads" and ok: "tracked_ok (before * n * stride) b"
  shows "\<exists>io. indices_out (fold (seed_thread n stride dt data)
            (grid max_threads (ceil_div n max_threads) before stride) b) = Some io \<and>
          length io = before * n * stride \<and>
          (\<forall>a<before * n * stride. io ! a = cast_index dt (a div stride mod n))"
proof -
  let ?g = "grid max_threads (ceil_div n max_threads) before stride"
  note S = seed_fold[where data=data and dt=dt, OF refl ok grid_ok[OF mt, where nbx="ceil_div n max_threads"]]
  from S obtain io where io: "indices_out (fold (seed_thread n stride dt data) ?g b) = Some io"
    "length io = before * n * stride"
    by (auto simp: tracked_ok_def)
  have "io ! a = cast_index dt (a div stride mod n)" if a: "a < before * n * stride" for a
  proof -
    from addr_surj[OF a] have c: "a = addr n stride (a div stride div n) (a mod stride) (a div stride mod n)"
      "a div stride div n < before" "a mod stride < stride" "a div stride mod n < n"
      by simp_all
    with S seed_cell_in_grid[OF mt c(4) c(2) c(3)]
    have "out_view (fold (seed_thread n stride dt data) ?g b) a =
        (data ! a, cast_index dt (a div stride mod n))"
      by metis
    then show ?thesis by (simp add: out_view_def io)
  qed
  with io show ?thesis by blast
qed

text \<open>An index type is exact on an axis when it holds every position of the axis as it is.\<close>

definition index_exact :: "dtype \<Rightarrow> nat \<Rightarrow> bool" where
  "index_exact dt n \<longleftrightarrow> (\<forall>p<n. cast_index dt p = p)"

lemma round_to_bits_small: "x < 2 ^ m \<Longrightarrow> round_to_bits m x = x"
  by (simp add: round_to_bits_def)

lemma index_exact_int [simp]: "index_exact Int32 n" "index_exact Int64 n"
  by (simp_all add: index_exact_def cast_index_def)

lemma index_exact_float32: "n \<le> 2 ^ 24 \<Longrightarrow> index_exact Float32 n"
  unfolding index_exact_def cast_index_def
  by (auto intro!: round_to_bits_small)

lemma bit_length_numeral:
  "bit_length (numeral k) = Suc (bit_length (numeral k div 2))"
  by (subst bit_length.simps) simp

lemma bit_length_0 [simp]: "bit_length 0 = 0"
  by (subst bit_length.simps) simp

lemma bit_length_1 [simp]: "bit_length 1 = 1" "bit_length (Suc 0) = 1"
  by (subst bit_length.simps, simp)+

lemma bit_length_16777217: "bit_length 16777217 = 25"
  by (simp add: bit_length_numeral)

lemma cast_float32_16777217: "cast_index Float32 16777217 = 16777216"
  by (simp add: cast_index_def round_to_bits_def bit_length_16777217)


lemma compare_refl [simp]: "compare asc a a"
  by (simp add: compare_def)

lemma set_insert_ref [simp]: "set (insert_ref asc x ys) = insert x (set ys)"
  by (induction ys) auto

lemma sorted_wrt_insert_ref:
  "sorted_wrt (\<lambda>a b. compare asc (fst a) (fst b)) ys \<Longrightarrow>
   sorted_wrt (\<lambda>a b. compare asc (fst a) (fst b)) (insert_ref asc x ys)"
proof (induction ys)
  case Nil
  show ?case by simp
next
  case (Cons y ys)
  show ?case
  proof (cases "compare asc (fst x) (fst y)")
    case True
    with Cons.prems show ?thesis by (auto dest: compare_trans)
  next
    case False
    then have "compare asc (fst y) (fst x)" by (rule compare_total)
    with False Cons show ?thesis by auto
  qed
qed

lemma sorted_wrt_ref_sort: "sorted_wrt (\<lambda>a b. compare asc (fst a) (fst b)) (ref_sort asc xs)"
  by (induction xs) (simp_all add: ref_sort_def sorted_wrt_insert_ref)

lemma map_fst_ref_sort:
  "map fst (ref_sort asc xs) = (if asc then sort (map fst xs) else rev (sort (map fst xs)))"
proof (cases asc)
  case True
  have "sorted (map fst (ref_sort True xs))"
    using sorted_wrt_ref_sort[of True xs] by (simp add: sorted_wrt_map compare_def)
  moreover have "mset (map fst (ref_sort True xs)) = mset (map fst xs)" by simp
  ultimately have "sort (map fst xs) = map fst (ref_sort True xs)"
    by (metis properties_for_sort)
  with True show ?thesis by simp
next
  case False
  have "sorted_wrt (\<lambda>a b. b \<le> a) (map fst (ref_sort False xs))"
    using sorted_wrt_ref_sort[of False xs] by (simp add: sorted_wrt_map compare_def)
  then have "sorted (rev (map fst (ref_sort False xs)))"
    by (simp add: sorted_wrt_rev)
  moreover have "mset (rev (map fst (ref_sort False xs))) = mset (map fst xs)" by simp
  ultimately have "sort (map fst xs) = rev (map fst (ref_sort False xs))"
    by (metis properties_for_sort)
  then have "rev (sort (map fst xs)) = map fst (ref_sort False xs)" by simp
  with False show ?thesis by simp
qed

lemma ties_insert_ref:
  assumes "sorted_wrt (\<lambda>a b. fst a = fst b \<longrightarrow> snd a < snd b) ys"
    and "\<forall>y\<in>set ys. snd x < snd y"
  shows "sorted_wrt (\<lambda>a b. fst a = fst b \<longrightarrow> snd a < snd b) (insert_ref asc x ys)"
  using assms
proof (induction ys)
  case Nil
  show ?case by simp
next
  case (Cons y ys)
  show ?case
  proof (cases "compare asc (fst x) (fst y)")
    case True
    with Cons.prems show ?thesis by auto
  next
    case False
    then have "fst y \<noteq> fst x" by (metis compare_refl)
    with False Cons show ?thesis by auto
  qed
qed

lemma ties_ref_sort:
  "sorted_wrt (\<lambda>a b. snd a < snd b) xs \<Longrightarrow>
   sorted_wrt (\<lambda>a b. fst a = fst b \<longrightarrow> snd a < snd b) (ref_sort asc xs)"
proof (induction xs)
  case Nil
  show ?case by simp
next
  case (Cons x xs)
  then have "sorted_wrt (\<lambda>a b. fst a = fst b \<longrightarrow> snd a < snd b) (ref_sort asc xs)"
    and "\<forall>y\<in>set (ref_sort asc xs). snd x < snd y" by auto
  then have "sorted_wrt (\<lambda>a b. fst a = fst b \<longrightarrow> snd a < snd b) (insert_ref asc x (ref_sort asc xs))"
    by (rule ties_insert_ref)
  then show ?case by (simp add: ref_sort_def)
qed

lemma ref_sort_sorted_id:
  "sorted_wrt (\<lambda>a b. compare asc (fst a) (fst b)) xs \<Longrightarrow> ref_sort asc xs = xs"
proof (induction xs)
  case Nil
  show ?case by simp
next
  case (Cons x xs)
  then have r: "ref_sort asc xs = xs" by simp
  have "insert_ref asc x xs = x # xs" using Cons.prems by (cases xs) auto
  with r show ?case by (simp add: ref_sort_def)
qed

lemma orig_seg_positions_increasing:
  assumes "index_exact dt n" "hi \<le> n"
  shows "sorted_wrt (\<lambda>a b. snd a < snd b) (orig_seg dt data n stride y z lo hi)"
proof -
  have "sorted_wrt (<) [lo..<hi]" by (simp add: sorted_wrt_iff_nth_less)
  then have "sorted_wrt (\<lambda>p q. cast_index dt p < cast_index dt q) [lo..<hi]"
  proof (rule sorted_wrt_mono_rel[rotated])
    fix p q assume "p \<in> set [lo..<hi]" "q \<in> set [lo..<hi]" "p < q"
    then show "cast_index dt p < cast_index dt q"
      using assms by (simp add: index_exact_def)
  qed
  then show ?thesis by (simp add: orig_seg_def sorted_wrt_map)
qed

lemma sort_kernels_ties:
  fixes b :: "'a::linorder bufs"
  assumes N: "N = before * n * stride" and mt: "0 < max_threads"
    and ok: "tracked_ok N b" and y: "y < before" and z: "z < stride"
    and ex: "index_exact dt n" and pq: "p < q" "q < n"
    and eq: "values_out (sort_kernels ninf max_threads asc before n stride dt data b) ! addr n stride y z p =
             values_out (sort_kernels ninf max_threads asc before n stride dt data b) ! addr n stride y z q"
  shows "the (indices_out (sort_kernels ninf max_threads asc before n stride dt data b)) ! addr n stride y z p <
         the (indices_out (sort_kernels ninf max_threads asc before n stride dt data b)) ! addr n stride y z q"
proof -
  let ?r = "sort_kernels ninf max_threads asc before n stride dt data b"
  let ?ys = "view_seg (out_view ?r) n stride y z 0 n"
  have st: "0 < stride" using z by simp
  have npos: "0 < n" using pq by simp
  from sort_kernels_tracked[OF N st mt ok y z npos, where asc=asc and data=data and dt=dt and ninf=ninf]
  have S: "?ys = ref_sort asc (orig_seg dt data n stride y z 0 n)" by simp
  have "sorted_wrt (\<lambda>a b. fst a = fst b \<longrightarrow> snd a < snd b) ?ys"
    unfolding S by (rule ties_ref_sort) (rule orig_seg_positions_increasing[OF ex order_refl])
  moreover have "p < q" "q < length ?ys" using pq by (simp_all add: view_seg_def)
  ultimately have "fst (?ys ! p) = fst (?ys ! q) \<longrightarrow> snd (?ys ! p) < snd (?ys ! q)"
    by (rule sorted_wrt_nth_less)
  then show ?thesis using pq eq by (simp add: view_seg_def out_view_def)
qed

lemma segment_values_sorted:
  fixes b :: "'a::linorder bufs"
  assumes N: "N = before * n * stride" and mt: "0 < max_threads"
    and len: "length (values_out b) = N" "length (values_out_swap b) = N"
    and y: "y < before" and z: "z < stride"
  shows "map (\<lambda>p. values_out (sort_kernels ninf max_threads asc before n stride dt data b) ! addr n stride y z p) [0..<n] =
     (if asc then sort (map (\<lambda>p. data ! addr n stride y z p) [0..<n])
      else rev (sort (map (\<lambda>p. data ! addr n stride y z p) [0..<n])))"
proof (cases "n = 0")
  case True
  then show ?thesis by simp
next
  case False
  then have npos: "0 < n" by simp
  have "map fst (orig_seg dt data n stride y z 0 n) = map (\<lambda>p. data ! addr n stride y z p) [0..<n]"
    by (simp add: orig_seg_def comp_def)
  then show ?thesis
    using sort_kernels_values[OF N mt len y z npos, of ninf asc dt data]
    by (simp add: map_fst_ref_sort)
qed

text \<open>
  C1. For every input and both directions, the values that \<open>sort_ir\<close> leaves along the
  sort axis of each segment are the values of the segment in ascending order (\<open>sort\<close>) when
  ascending is asked for and in descending order (its reverse) otherwise. Equal values keep
  the order of their positions in the input (at every merge the left run goes first): with
  index buffers of a type that holds the axis positions exactly, the recorded positions of
  equal values increase along the output.
\<close>

theorem sort_ir_sorts_each_segment_stably:
  fixes data :: "'a::linorder list"
  assumes "0 < max_threads"
    and "0 \<le> norm_axis shape axis" and "norm_axis shape axis < int (length shape)"
    and "length values_out0 = prod_list shape" and "length values_out_swap0 = prod_list shape"
    and "indices_out0 = None \<or> indices_out_swap0 \<noteq> None"
    and "a = nat (norm_axis shape axis)" and "n = shape ! a"
    and "stride = prod_list (drop (Suc a) shape)"
    and "y < prod_list (take a shape)" and "z < stride"
  shows "\<exists>r. sort_ir neg_inf_cast max_threads shape data values_out0 values_out_swap0 axis is_ascend
              dt indices_out0 indices_out_swap0 = Inr r \<and>
     map (\<lambda>p. values_out r ! addr n stride y z p) [0..<n] =
       (if is_ascend then sort (map (\<lambda>p. data ! addr n stride y z p) [0..<n])
        else rev (sort (map (\<lambda>p. data ! addr n stride y z p) [0..<n]))) \<and>
     (\<forall>io0 ios0. indices_out0 = Some io0 \<and> indices_out_swap0 = Some ios0 \<and>
        length io0 = prod_list shape \<and> length ios0 = prod_list shape \<and> index_exact dt n \<longrightarrow>
        (\<forall>p q. p < q \<and> q < n \<and>
           values_out r ! addr n stride y z p = values_out r ! addr n stride y z q \<longrightarrow>
           the (indices_out r) ! addr n stride y z p < the (indices_out r) ! addr n stride y z q))"
proof -
  have a: "a < length shape" using assms(2,3,7) by linarith
  let ?b = "\<lparr>values_out = values_out0, values_out_swap = values_out_swap0,
             indices_out = indices_out0, indices_out_swap = indices_out_swap0\<rparr>"
  let ?r = "sort_kernels neg_inf_cast max_threads is_ascend (prod_list (take a shape)) n stride dt data ?b"
  have r: "sort_ir neg_inf_cast max_threads shape data values_out0 values_out_swap0 axis is_ascend
              dt indices_out0 indices_out_swap0 = Inr ?r"
    using sort_ir_ok[OF assms(2,3,6)] assms(7,8,9) by simp
  have N: "prod_list shape = prod_list (take a shape) * n * stride"
    using prod_list_split[OF a] assms(8,9) by simp
  have v: "map (\<lambda>p. values_out ?r ! addr n stride y z p) [0..<n] =
       (if is_ascend then sort (map (\<lambda>p. data ! addr n stride y z p) [0..<n])
        else rev (sort (map (\<lambda>p. data ! addr n stride y z p) [0..<n])))"
    by (rule segment_values_sorted[OF N assms(1) _ _ assms(10,11)]) (simp_all add: assms(4,5))
  have t: "the (indices_out ?r) ! addr n stride y z p < the (indices_out ?r) ! addr n stride y z q"
    if h: "indices_out0 = Some io0" "indices_out_swap0 = Some ios0"
      "length io0 = prod_list shape" "length ios0 = prod_list shape" "index_exact dt n"
      and pq: "p < q" "q < n"
      and eq: "values_out ?r ! addr n stride y z p = values_out ?r ! addr n stride y z q"
    for io0 ios0 p q
  proof -
    have ok: "tracked_ok (prod_list shape) ?b"
      using h assms(4,5) by (simp add: tracked_ok_def)
    show ?thesis
      by (rule sort_kernels_ties[OF N assms(1) ok assms(10,11) h(5) pq eq])
  qed
  show ?thesis
    unfolding r using v t by blast
qed

theorem sort_ir_sorts_each_segment_stably_witness:
  "(\<exists>r. sort_ir (- (2 ^ 63)) 4 [5] [5, 3, 4, 1, 2 :: int] [0, 0, 0, 0, 0] [0, 0, 0, 0, 0] (- 1) True
          Float32 None None = Inr r \<and>
        map (\<lambda>p. values_out r ! addr 5 1 0 0 p) [0..<5] = [1, 2, 3, 4, 5]) \<and>
   (\<exists>r. sort_ir (- (2 ^ 63)) 4 [5] [2, 1, 3, 1, 2 :: int] [0, 0, 0, 0, 0] [0, 0, 0, 0, 0] 0 False
          Int32 (Some [0, 0, 0, 0, 0]) (Some [0, 0, 0, 0, 0]) = Inr r \<and>
        map (\<lambda>p. values_out r ! addr 5 1 0 0 p) [0..<5] = [3, 2, 2, 1, 1] \<and>
        the (indices_out r) ! addr 5 1 0 0 1 < the (indices_out r) ! addr 5 1 0 0 2 \<and>
        the (indices_out r) ! addr 5 1 0 0 3 < the (indices_out r) ! addr 5 1 0 0 4)"
proof -
  have s1: "sort (map (\<lambda>p. [5, 3, 4, 1, 2 :: int] ! addr 5 1 0 0 p) [0..<5]) = [1, 2, 3, 4, 5]"
    by (simp add: addr_def upt_conv_Cons)
  have s2: "rev (sort (map (\<lambda>p. [2, 1, 3, 1, 2 :: int] ! addr 5 1 0 0 p) [0..<5])) = [3, 2, 2, 1, 1]"
    by (simp add: addr_def upt_conv_Cons)
  have n1: "norm_axis [5] (- 1) = 0" "norm_axis [5] 0 = 0"
    by (simp_all add: norm_axis_def)
  have A: "\<exists>r. sort_ir (- (2 ^ 63)) 4 [5] [5, 3, 4, 1, 2 :: int] [0, 0, 0, 0, 0] [0, 0, 0, 0, 0] (- 1) True
          Float32 None None = Inr r \<and>
        map (\<lambda>p. values_out r ! addr 5 1 0 0 p) [0..<5] = [1, 2, 3, 4, 5]"
  proof -
    from sort_ir_sorts_each_segment_stably[where max_threads = 4 and shape = "[5]" and axis = "- 1"
        and ?values_out0.0 = "[0, 0, 0, 0, 0 :: int]" and ?values_out_swap0.0 = "[0, 0, 0, 0, 0]"
        and ?indices_out0.0 = None and ?indices_out_swap0.0 = None and a = 0 and n = 5
        and stride = 1 and y = 0 and z = 0 and neg_inf_cast = "- (2 ^ 63)"
        and data = "[5, 3, 4, 1, 2]" and is_ascend = True and dt = Float32]
    obtain r where "sort_ir (- (2 ^ 63)) 4 [5] [5, 3, 4, 1, 2 :: int] [0, 0, 0, 0, 0] [0, 0, 0, 0, 0] (- 1) True
          Float32 None None = Inr r"
      "map (\<lambda>p. values_out r ! addr 5 1 0 0 p) [0..<5] =
         (if True then sort (map (\<lambda>p. [5, 3, 4, 1, 2 :: int] ! addr 5 1 0 0 p) [0..<5])
          else rev (sort (map (\<lambda>p. [5, 3, 4, 1, 2 :: int] ! addr 5 1 0 0 p) [0..<5])))"
      unfolding n1 by fastforce
    then show ?thesis unfolding s1 by simp
  qed
  have ex: "index_exact Int32 5" by simp
  have B: "\<exists>r. sort_ir (- (2 ^ 63)) 4 [5] [2, 1, 3, 1, 2 :: int] [0, 0, 0, 0, 0] [0, 0, 0, 0, 0] 0 False
          Int32 (Some [0, 0, 0, 0, 0]) (Some [0, 0, 0, 0, 0]) = Inr r \<and>
        map (\<lambda>p. values_out r ! addr 5 1 0 0 p) [0..<5] = [3, 2, 2, 1, 1] \<and>
        the (indices_out r) ! addr 5 1 0 0 1 < the (indices_out r) ! addr 5 1 0 0 2 \<and>
        the (indices_out r) ! addr 5 1 0 0 3 < the (indices_out r) ! addr 5 1 0 0 4"
  proof -
    from sort_ir_sorts_each_segment_stably[where max_threads = 4 and shape = "[5]" and axis = 0
        and ?values_out0.0 = "[0, 0, 0, 0, 0 :: int]" and ?values_out_swap0.0 = "[0, 0, 0, 0, 0]"
        and ?indices_out0.0 = "Some [0, 0, 0, 0, 0]" and ?indices_out_swap0.0 = "Some [0, 0, 0, 0, 0]"
        and a = 0 and n = 5
        and stride = 1 and y = 0 and z = 0 and neg_inf_cast = "- (2 ^ 63)"
        and data = "[2, 1, 3, 1, 2]" and is_ascend = False and dt = Int32]
    obtain r where r: "sort_ir (- (2 ^ 63)) 4 [5] [2, 1, 3, 1, 2 :: int] [0, 0, 0, 0, 0] [0, 0, 0, 0, 0] 0 False
          Int32 (Some [0, 0, 0, 0, 0]) (Some [0, 0, 0, 0, 0]) = Inr r"
      and v: "map (\<lambda>p. values_out r ! addr 5 1 0 0 p) [0..<5] =
         (if False then sort (map (\<lambda>p. [2, 1, 3, 1, 2 :: int] ! addr 5 1 0 0 p) [0..<5])
          else rev (sort (map (\<lambda>p. [2, 1, 3, 1, 2 :: int] ! addr 5 1 0 0 p) [0..<5])))"
      and t: "\<forall>io0 ios0. Some [0, 0, 0, 0, 0] = Some io0 \<and> Some [0, 0, 0, 0, 0] = Some ios0 \<and>
        length io0 = prod_list [5] \<and> length ios0 = prod_list [5] \<and> index_exact Int32 5 \<longrightarrow>
        (\<forall>p q. p < q \<and> q < 5 \<and>
           values_out r ! addr 5 1 0 0 p = values_out r ! addr 5 1 0 0 q \<longrightarrow>
           the (indices_out r) ! addr 5 1 0 0 p < the (indices_out r) ! addr 5 1 0 0 q)"
      unfolding n1 by fastforce
    from v have v': "map (\<lambda>p. values_out r ! addr 5 1 0 0 p) [0..<5] = [3, 2, 2, 1, 1]"
      unfolding s2 by simp
    from t ex have t': "\<And>p q. p < q \<Longrightarrow> q < 5 \<Longrightarrow>
           values_out r ! addr 5 1 0 0 p = values_out r ! addr 5 1 0 0 q \<Longrightarrow>
           the (indices_out r) ! addr 5 1 0 0 p < the (indices_out r) ! addr 5 1 0 0 q"
      by simp
    from v' have e: "values_out r ! addr 5 1 0 0 1 = values_out r ! addr 5 1 0 0 2"
       "values_out r ! addr 5 1 0 0 3 = values_out r ! addr 5 1 0 0 4"
      by (simp_all add: upt_conv_Cons eval_nat_numeral)
    have i1: "the (indices_out r) ! addr 5 1 0 0 1 < the (indices_out r) ! addr 5 1 0 0 2"
      by (rule t'[OF _ _ e(1)]) simp_all
    have i2: "the (indices_out r) ! addr 5 1 0 0 3 < the (indices_out r) ! addr 5 1 0 0 4"
      by (rule t'[OF _ _ e(2)]) simp_all
    show ?thesis by (rule exI[of _ r]) (intro conjI r v' i1 i2)
  qed
  show ?thesis by (intro conjI A B)
qed

subsection \<open>The recorded positions\<close>

text \<open>
  With index buffers of a type that holds the axis positions exactly, every output slot of
  a segment holds the value of the input at the recorded position, and the recorded
  positions of a segment are a permutation of the axis positions.
\<close>

lemma sort_kernels_indices_exact:
  fixes b :: "'a::linorder bufs"
  assumes N: "N = before * n * stride" and mt: "0 < max_threads"
    and ok: "tracked_ok N b" and y: "y < before" and z: "z < stride"
    and ex: "index_exact dt n" and npos: "0 < n"
    and r: "r = sort_kernels ninf max_threads asc before n stride dt data b"
  shows "(\<forall>p<n. the (indices_out r) ! addr n stride y z p < n \<and>
        values_out r ! addr n stride y z p =
          data ! addr n stride y z (the (indices_out r) ! addr n stride y z p)) \<and>
     mset (map (\<lambda>p. the (indices_out r) ! addr n stride y z p) [0..<n]) = mset [0..<n]"
proof -
  have st: "0 < stride" using z by simp
  from sort_kernels_tracked[OF N st mt ok y z npos, where asc=asc and data=data and dt=dt and ninf=ninf,
      folded r]
  have S: "view_seg (out_view r) n stride y z 0 n = ref_sort asc (orig_seg dt data n stride y z 0 n)"
    by simp
  have cell: "the (indices_out r) ! addr n stride y z p < n \<and>
        values_out r ! addr n stride y z p =
          data ! addr n stride y z (the (indices_out r) ! addr n stride y z p)"
    if p: "p < n" for p
  proof -
    have "view_seg (out_view r) n stride y z 0 n ! p \<in> set (ref_sort asc (orig_seg dt data n stride y z 0 n))"
      unfolding S[symmetric] using p by (intro nth_mem) (simp add: view_seg_def)
    then have "out_view r (addr n stride y z p) \<in> set (orig_seg dt data n stride y z 0 n)"
      using p by (simp add: view_seg_def)
    then obtain q where "q < n" "out_view r (addr n stride y z p) = (data ! addr n stride y z q, cast_index dt q)"
      by (auto simp: orig_seg_def)
    moreover from this ex have "cast_index dt q = q" by (simp add: index_exact_def)
    ultimately show ?thesis by (simp add: out_view_def)
  qed
  have cast: "map (cast_index dt) [0..<n] = [0..<n]"
    using ex by (intro map_idI) (simp add: index_exact_def)
  have "map snd (view_seg (out_view r) n stride y z 0 n) =
      map (\<lambda>p. the (indices_out r) ! addr n stride y z p) [0..<n]"
    by (simp add: view_seg_def out_view_def comp_def)
  then have "mset (map (\<lambda>p. the (indices_out r) ! addr n stride y z p) [0..<n]) =
      mset (map snd (ref_sort asc (orig_seg dt data n stride y z 0 n)))"
    by (simp only: S)
  also have "\<dots> = mset (map snd (orig_seg dt data n stride y z 0 n))"
    by (simp only: mset_map mset_ref_sort)
  also have "\<dots> = mset [0..<n]"
    by (simp only: map_snd_orig_seg cast)
  finally have "mset (map (\<lambda>p. the (indices_out r) ! addr n stride y z p) [0..<n]) = mset [0..<n]" .
  with cell show ?thesis by blast
qed

text \<open>
  On a segment that is already in the requested order every slot keeps its value and
  records the cast of its own position.
\<close>

lemma sort_kernels_sorted_input:
  fixes b :: "'a::linorder bufs"
  assumes N: "N = before * n * stride" and mt: "0 < max_threads"
    and ok: "tracked_ok N b" and y: "y < before" and z: "z < stride"
    and sorted: "sorted_wrt (\<lambda>a b. compare asc (fst a) (fst b)) (orig_seg dt data n stride y z 0 n)"
    and p: "p < n"
    and r: "r = sort_kernels ninf max_threads asc before n stride dt data b"
  shows "values_out r ! addr n stride y z p = data ! addr n stride y z p \<and>
     the (indices_out r) ! addr n stride y z p = cast_index dt p"
proof -
  have st: "0 < stride" using z by simp
  have npos: "0 < n" using p by simp
  from sort_kernels_tracked[OF N st mt ok y z npos, where asc=asc and data=data and dt=dt and ninf=ninf,
      folded r]
  have "view_seg (out_view r) n stride y z 0 n = ref_sort asc (orig_seg dt data n stride y z 0 n)"
    by simp
  also have "\<dots> = orig_seg dt data n stride y z 0 n"
    using sorted by (rule ref_sort_sorted_id)
  finally have "view_seg (out_view r) n stride y z 0 n ! p = orig_seg dt data n stride y z 0 n ! p"
    by simp
  then show ?thesis using p by (simp add: view_seg_def orig_seg_def out_view_def)
qed

lemma bit_length_16777216: "bit_length 16777216 = 25"
  by (simp add: bit_length_numeral)

lemma cast_float32_16777216: "cast_index Float32 16777216 = 16777216"
  by (simp add: cast_index_def round_to_bits_def bit_length_16777216)

lemma float32_indices_lose_position:
  assumes mt: "0 < max_threads" and n: "16777217 < n"
  shows "\<exists>r io. sort_ir neg_inf_cast max_threads [n] (map int [0..<n]) (replicate n 0) (replicate n 0)
            (- 1) True Float32 (Some (replicate n 0)) (Some (replicate n 0)) = Inr r \<and>
       indices_out r = Some io \<and>
       io ! 16777216 = 16777216 \<and> io ! 16777217 = 16777216 \<and>
       values_out r ! 16777217 = 16777217 \<and>
       map int [0..<n] ! (io ! 16777217) = 16777216 \<and>
       values_out r ! 16777217 \<noteq> map int [0..<n] ! (io ! 16777217)"
proof -
  let ?b = "\<lparr>values_out = replicate n (0::int), values_out_swap = replicate n 0,
             indices_out = Some (replicate n 0), indices_out_swap = Some (replicate n 0)\<rparr>"
  define r where "r = sort_kernels neg_inf_cast max_threads True 1 n 1 Float32 (map int [0..<n]) ?b"
  have res: "sort_ir neg_inf_cast max_threads [n] (map int [0..<n]) (replicate n 0) (replicate n 0)
            (- 1) True Float32 (Some (replicate n 0)) (Some (replicate n 0)) = Inr r"
    using sort_ir_ok[where shape = "[n]" and axis = "- 1" and io = "Some (replicate n 0)"
        and ios = "Some (replicate n 0)" and ninf = neg_inf_cast and max_threads = max_threads
        and data = "map int [0..<n]" and vo = "replicate n 0" and vos = "replicate n 0"
        and asc = True and dt = Float32]
    by (simp add: norm_axis_def r_def)
  have ok: "tracked_ok n ?b" by (simp add: tracked_ok_def)
  have srt: "sorted_wrt (\<lambda>a b. compare True (fst a) (fst b)) (orig_seg Float32 (map int [0..<n]) n 1 0 0 0 n)"
    by (simp add: orig_seg_def sorted_wrt_map sorted_wrt_iff_nth_less addr_def compare_def)
  have a: "addr n (Suc 0) 0 0 p = p" for p by (simp add: addr_def)
  from sort_kernels_sorted_input[where N = n and before = 1 and stride = 1 and y = 0 and z = 0
      and p = 16777217, OF _ mt ok _ _ srt n r_def]
  have c: "values_out r ! 16777217 = map int [0..<n] ! 16777217"
    "the (indices_out r) ! 16777217 = 16777216"
    by (simp_all add: a cast_float32_16777217)
  have n': "16777216 < n" using n by simp
  from sort_kernels_sorted_input[where N = n and before = 1 and stride = 1 and y = 0 and z = 0
      and p = 16777216, OF _ mt ok _ _ srt n' r_def]
  have c': "the (indices_out r) ! 16777216 = 16777216"
    by (simp_all add: a cast_float32_16777216)
  have okr: "tracked_ok n r"
    unfolding r_def
    using sort_kernels_tracked[where N = n and before = 1 and stride = 1 and y = 0 and z = 0
      and n = n and b = ?b and max_threads = max_threads, OF _ _ mt ok] n
    by simp
  then obtain io where io: "indices_out r = Some io" by (auto simp: tracked_ok_def)
  from c c' io n have "io ! 16777216 = 16777216" "io ! 16777217 = 16777216"
    "values_out r ! 16777217 = 16777217"
    "map int [0..<n] ! (io ! 16777217) = 16777216"
    "values_out r ! 16777217 \<noteq> map int [0..<n] ! (io ! 16777217)"
    by simp_all
  with res io show ?thesis by blast
qed

text \<open>
  C2. The claim fails for the index type \<open>float32\<close>, the default of \<open>argsort\<close>: on the
  one-dimensional tensor \<open>data[i] = i\<close> of 16777218 elements sorted in ascending order,
  line 146 stores the position 16777217 as 16777216 (its nearest \<open>float32\<close>), so the slots
  16777216 and 16777217 of the index buffer both hold 16777216, and slot 16777217 holds the
  value 16777217 while the input at the recorded position is 16777216.
\<close>

theorem argsort_float32_indices_lose_position:
  "\<exists>r io. sort_ir (- (2 ^ 63)) 1024 [16777218] (map int [0..<16777218])
            (replicate 16777218 0) (replicate 16777218 0)
            (- 1) True Float32 (Some (replicate 16777218 0)) (Some (replicate 16777218 0)) = Inr r \<and>
       indices_out r = Some io \<and>
       io ! 16777216 = 16777216 \<and> io ! 16777217 = 16777216 \<and>
       values_out r ! 16777217 = 16777217 \<and>
       map int [0..<16777218] ! (io ! 16777217) = 16777216 \<and>
       values_out r ! 16777217 \<noteq> map int [0..<16777218] ! (io ! 16777217)"
  by (rule float32_indices_lose_position) simp_all

subsection \<open>The roles of the two buffer pairs\<close>

text \<open>
  The merge of two runs of values with the left run first at a tie, and the value that a
  round of the given width puts at position \<open>p\<close> of a segment: the element of the merge of
  the two halves of the run of \<open>p\<close>, read from the source buffer \<open>V\<close>.
\<close>

fun merge_vals :: "bool \<Rightarrow> 'a::linorder list \<Rightarrow> 'a list \<Rightarrow> 'a list" where
  "merge_vals asc [] ys = ys"
| "merge_vals asc xs [] = xs"
| "merge_vals asc (x # xs) (y # ys) =
     (if (if asc then x \<le> y else y \<le> x) then x # merge_vals asc xs (y # ys)
      else y # merge_vals asc (x # xs) ys)"

definition val_seg :: "'a list \<Rightarrow> nat \<Rightarrow> nat \<Rightarrow> nat \<Rightarrow> nat \<Rightarrow> 'a list" where
  "val_seg V base stride lo hi = map (\<lambda>p. V ! (base + p * stride)) [lo..<hi]"

definition merged_val ::
  "bool \<Rightarrow> nat \<Rightarrow> nat \<Rightarrow> nat \<Rightarrow> 'a::linorder list \<Rightarrow> nat \<Rightarrow> nat \<Rightarrow> 'a" where
  "merged_val asc n stride width V base p =
     (let start = width * (p div width);
          middle = min (start + width div 2) n;
          end = min (start + width) n
      in merge_vals asc (val_seg V base stride start middle) (val_seg V base stride middle end)
           ! (p - start))"

text \<open>A state with index buffers of zeros in place of whatever index buffers it has.\<close>

definition ghost :: "nat \<Rightarrow> 'a bufs \<Rightarrow> 'a bufs" where
  "ghost N b = b\<lparr>indices_out := Some (replicate N 0), indices_out_swap := Some (replicate N 0)\<rparr>"

lemma forget_ghost [simp]: "forget (ghost N b) = forget b"
  by (simp add: forget_def ghost_def)

lemma ghost_sel [simp]:
  "values_out (ghost N b) = values_out b" "values_out_swap (ghost N b) = values_out_swap b"
  "indices_out (ghost N b) = Some (replicate N 0)" "indices_out_swap (ghost N b) = Some (replicate N 0)"
  by (simp_all add: ghost_def)

lemma ghost_tracked:
  "length (values_out b) = N \<Longrightarrow> length (values_out_swap b) = N \<Longrightarrow> tracked_ok N (ghost N b)"
  by (simp add: tracked_ok_def)

lemma values_via_ghost:
  assumes "\<And>c. F (forget c) = forget (F c)"
  shows "values_out (F b) = values_out (F (ghost N b))"
    and "values_out_swap (F b) = values_out_swap (F (ghost N b))"
proof -
  have "forget (F b) = forget (F (ghost N b))"
    using assms[of b] assms[of "ghost N b"] by simp
  then show "values_out (F b) = values_out (F (ghost N b))"
    and "values_out_swap (F b) = values_out_swap (F (ghost N b))"
    by (metis forget_sel(1), metis forget_sel(2))
qed

lemma rounds_result_forget:
  "rounds_result ninf max_threads asc before n stride dt data (forget b) =
     forget (rounds_result ninf max_threads asc before n stride dt data b)"
proof -
  have "fold (merge_round max_threads asc before n stride) ks (forget c) =
      forget (fold (merge_round max_threads asc before n stride) ks c)" for ks c
    by (rule fold_commute) (rule merge_round_forget)
  then show ?thesis by (simp add: rounds_result_def seed_fold_forget)
qed

lemma map_fst_merge_ref:
  "map fst (merge_ref asc xs ys) = merge_vals asc (map fst xs) (map fst ys)"
  by (induction asc xs ys rule: merge_ref.induct) (auto simp: compare_def)

lemma map_fst_run_seg: "map fst (run_seg V SI base stride lo hi) = val_seg V base stride lo hi"
  by (simp add: run_seg_def val_seg_def comp_def)

lemma fst_run_val:
  assumes "p < n" "0 < width"
  shows "fst (run_val asc n stride width V SI base p) = merged_val asc n stride width V base p"
proof -
  define start where "start = width * (p div width)"
  define middle where "middle = min (start + width div 2) n"
  define en where "en = min (start + width) n"
  have s: "start \<le> p" unfolding start_def by simp
  have "p < start + width"
    unfolding start_def using assms(2) dividend_less_times_div[of width p] by (simp add: algebra_simps)
  then have e: "p < en" using assms(1) by (simp add: en_def)
  define h where "h = width div 2"
  have h: "h \<le> width" by (simp add: h_def)
  have m: "start \<le> middle" "middle \<le> en"
    using s assms(1) h unfolding middle_def en_def h_def[symmetric] by linarith+
  have k: "p - start < length (merge_ref asc (run_seg V SI base stride start middle)
              (run_seg V SI base stride middle en))"
    using s e m by (simp add: run_seg_def)
  have "fst (merge_ref asc (run_seg V SI base stride start middle) (run_seg V SI base stride middle en)
             ! (p - start)) =
        map fst (merge_ref asc (run_seg V SI base stride start middle) (run_seg V SI base stride middle en))
             ! (p - start)"
    using k by (rule nth_map[symmetric])
  also have "\<dots> = merge_vals asc (val_seg V base stride start middle) (val_seg V base stride middle en)
             ! (p - start)"
    by (simp only: map_fst_merge_ref map_fst_run_seg)
  finally show ?thesis
    by (simp add: run_val_def merged_val_def Let_def start_def middle_def en_def)
qed

lemma merge_round_cells:
  fixes b :: "'a::linorder bufs"
  assumes "0 < max_threads" "tracked_ok (before * n * stride) b" "y < before" "z < stride" "p < n"
  shows "even r \<Longrightarrow>
      swap_view (merge_round max_threads asc before n stride r b) (addr n stride y z p) =
        run_val asc n stride (2 * 2 ^ r) (values_out b) (the (indices_out b)) (y * n * stride + z) p"
    and "odd r \<Longrightarrow>
      out_view (merge_round max_threads asc before n stride r b) (addr n stride y z p) =
        run_val asc n stride (2 * 2 ^ r) (values_out_swap b) (the (indices_out_swap b))
          (y * n * stride + z) p"
proof -
  show "even r \<Longrightarrow>
      swap_view (merge_round max_threads asc before n stride r b) (addr n stride y z p) =
        run_val asc n stride (2 * 2 ^ r) (values_out b) (the (indices_out b)) (y * n * stride + z) p"
    using merge_round_even_cells[OF assms, of asc r]
    by (simp add: merge_round_def Let_def even_iff_mod_2_eq_zero)
  have ok: "tracked_ok (before * n * stride) (flip b)" using assms(2) by simp
  show "odd r \<Longrightarrow>
      out_view (merge_round max_threads asc before n stride r b) (addr n stride y z p) =
        run_val asc n stride (2 * 2 ^ r) (values_out_swap b) (the (indices_out_swap b))
          (y * n * stride + z) p"
    using merge_round_even_cells[OF assms(1) ok assms(3,4,5), of asc r]
    by (simp add: merge_round_def Let_def even_iff_mod_2_eq_zero fold_mergesort_odd)
qed

lemma merge_round_values:
  fixes b :: "'a::linorder bufs"
  assumes mt: "0 < max_threads"
    and len: "length (values_out b) = before * n * stride" "length (values_out_swap b) = before * n * stride"
    and c: "y < before" "z < stride" "p < n"
  shows "even r \<Longrightarrow>
      values_out_swap (merge_round max_threads asc before n stride r b) ! addr n stride y z p =
        merged_val asc n stride (2 * 2 ^ r) (values_out b) (y * n * stride + z) p"
    and "odd r \<Longrightarrow>
      values_out (merge_round max_threads asc before n stride r b) ! addr n stride y z p =
        merged_val asc n stride (2 * 2 ^ r) (values_out_swap b) (y * n * stride + z) p"
proof -
  let ?N = "before * n * stride"
  let ?F = "merge_round max_threads asc before n stride r"
  have ok: "tracked_ok ?N (ghost ?N b)" using len by (rule ghost_tracked)
  have w: "0 < (2::nat) * 2 ^ r" by simp
  note V = values_via_ghost[of ?F, OF merge_round_forget, of b ?N]
  assume "even r"
  from merge_round_cells(1)[OF mt ok c this, of asc]
  have "fst (swap_view (?F (ghost ?N b)) (addr n stride y z p)) =
      fst (run_val asc n stride (2 * 2 ^ r) (values_out b) (replicate ?N 0) (y * n * stride + z) p)"
    by simp
  then show "values_out_swap (?F b) ! addr n stride y z p =
        merged_val asc n stride (2 * 2 ^ r) (values_out b) (y * n * stride + z) p"
    by (simp add: V swap_view_def fst_run_val[OF c(3) w])
next
  let ?N = "before * n * stride"
  let ?F = "merge_round max_threads asc before n stride r"
  have ok: "tracked_ok ?N (ghost ?N b)" using len by (rule ghost_tracked)
  have w: "0 < (2::nat) * 2 ^ r" by simp
  note V = values_via_ghost[of ?F, OF merge_round_forget, of b ?N]
  assume "odd r"
  from merge_round_cells(2)[OF mt ok c this, of asc]
  have "fst (out_view (?F (ghost ?N b)) (addr n stride y z p)) =
      fst (run_val asc n stride (2 * 2 ^ r) (values_out_swap b) (replicate ?N 0) (y * n * stride + z) p)"
    by simp
  then show "values_out (?F b) ! addr n stride y z p =
        merged_val asc n stride (2 * 2 ^ r) (values_out_swap b) (y * n * stride + z) p"
    by (simp add: V out_view_def fst_run_val[OF c(3) w])
qed

lemma sort_kernels_unfold:
  "0 < n \<Longrightarrow> sort_kernels ninf max_threads asc before n stride dt data b =
     (if odd (ceil_log2 n)
      then fold (writeback_thread n stride) (grid max_threads (ceil_div n max_threads) before stride)
             (rounds_result ninf max_threads asc before n stride dt data b)
      else rounds_result ninf max_threads asc before n stride dt data b)"
proof -
  have "(int k mod 2 = 1) = odd k" for k by presburger
  then show "0 < n \<Longrightarrow> ?thesis"
    by (simp add: sort_kernels_def rounds_result_def Let_def lim_rounds_def)
qed

lemma final_copy_tracked:
  fixes b :: "'a::linorder bufs"
  assumes mt: "0 < max_threads" and ok: "tracked_ok (before * n * stride) b"
    and c: "y < before" "z < stride" "p < n" and odd: "odd (ceil_log2 n)"
  shows "out_view (sort_kernels ninf max_threads asc before n stride dt data b) (addr n stride y z p) =
         swap_view (rounds_result ninf max_threads asc before n stride dt data b) (addr n stride y z p)"
proof -
  let ?g = "grid max_threads (ceil_div n max_threads) before stride"
  have N: "before * n * stride = before * n * stride" ..
  have st: "0 < stride" using c(2) by simp
  have npos: "0 < n" using c(3) by simp
  have ok1: "tracked_ok (before * n * stride) (fold (seed_thread n stride dt data) ?g b)"
    using seed_fold[where data=data and dt=dt, OF N ok grid_ok[OF mt]] by simp
  have ok2: "tracked_ok (before * n * stride) (rounds_result ninf max_threads asc before n stride dt data b)"
    unfolding rounds_result_def by (rule merge_rounds_tracked_ok[OF N st mt ok1])
  show ?thesis
    using odd writeback_fold[OF N ok2 grid_ok[OF mt], of "ceil_div n max_threads"]
      seed_cell_in_grid[OF mt c(3) c(1) c(2)] c
    by (simp add: sort_kernels_unfold[OF npos])
qed

lemma final_copy_values:
  fixes b :: "'a::linorder bufs"
  assumes mt: "0 < max_threads"
    and len: "length (values_out b) = before * n * stride" "length (values_out_swap b) = before * n * stride"
    and c: "y < before" "z < stride" "p < n" and odd: "odd (ceil_log2 n)"
  shows "values_out (sort_kernels ninf max_threads asc before n stride dt data b) ! addr n stride y z p =
         values_out_swap (rounds_result ninf max_threads asc before n stride dt data b) ! addr n stride y z p"
proof -
  let ?N = "before * n * stride"
  have ok: "tracked_ok ?N (ghost ?N b)" using len by (rule ghost_tracked)
  note V1 = values_via_ghost(1)[of "sort_kernels ninf max_threads asc before n stride dt data",
      OF sort_kernels_forget, of b ?N]
  note V2 = values_via_ghost(2)[of "rounds_result ninf max_threads asc before n stride dt data",
      OF rounds_result_forget, of b ?N]
  from final_copy_tracked[OF mt ok c odd, of ninf asc dt data]
  have "fst (out_view (sort_kernels ninf max_threads asc before n stride dt data (ghost ?N b)) (addr n stride y z p)) =
        fst (swap_view (rounds_result ninf max_threads asc before n stride dt data (ghost ?N b)) (addr n stride y z p))"
    by simp
  then show ?thesis by (simp add: V1 V2 out_view_def swap_view_def)
qed

lemma writeback_fold_swap_frame:
  "values_out_swap (fold (writeback_thread n stride) ts b) = values_out_swap b \<and>
   indices_out_swap (fold (writeback_thread n stride) ts b) = indices_out_swap b"
  by (induction ts arbitrary: b) (auto simp: writeback_thread_def Let_def split: option.splits)

lemma segment_value_sorted_nth:
  fixes b :: "'a::linorder bufs"
  assumes mt: "0 < max_threads"
    and len: "length (values_out b) = before * n * stride" "length (values_out_swap b) = before * n * stride"
    and c: "y < before" "z < stride" "p < n"
  shows "values_out (sort_kernels ninf max_threads asc before n stride dt data b) ! addr n stride y z p =
     (if asc then sort (map (\<lambda>q. data ! addr n stride y z q) [0..<n])
      else rev (sort (map (\<lambda>q. data ! addr n stride y z q) [0..<n]))) ! p"
proof -
  have "map (\<lambda>q. values_out (sort_kernels ninf max_threads asc before n stride dt data b) ! addr n stride y z q) [0..<n] ! p =
     (if asc then sort (map (\<lambda>q. data ! addr n stride y z q) [0..<n])
      else rev (sort (map (\<lambda>q. data ! addr n stride y z q) [0..<n]))) ! p"
    by (simp only: segment_values_sorted[OF refl mt len c(1,2)])
  then show ?thesis using c(3) by simp
qed

text \<open>
  C5. In round \<open>r\<close> the source is the output buffer pair when \<open>r\<close> is even and the swap
  buffer pair when \<open>r\<close> is odd: the round leaves its source unwritten and writes into the
  other pair the merge of the two halves of every run of the source, the values whether or
  not indices are tracked, and the indices with them when they are. After the
  \<open>ceil_log2 n\<close> rounds the sorted segment is in the swap buffers when that number is odd
  and the final launch copies it into the output buffers (values, and indices when
  tracked); when the number is even the sorted segment is in the output buffers already
  and no copy is made.
\<close>

theorem ping_pong_roles_follow_round_parity:
  fixes b :: "'a::linorder bufs"
  assumes "0 < max_threads"
    and "length (values_out b) = before * n * stride"
    and "length (values_out_swap b) = before * n * stride"
    and "y < before" and "z < stride" and "p < n"
    and "R = merge_round max_threads asc before n stride r b"
    and "RR = rounds_result ninf max_threads asc before n stride dt data b"
    and "S = sort_kernels ninf max_threads asc before n stride dt data b"
    and "sorted_seg = (if asc then sort (map (\<lambda>q. data ! addr n stride y z q) [0..<n])
                       else rev (sort (map (\<lambda>q. data ! addr n stride y z q) [0..<n])))"
  shows "(even r \<longrightarrow>
            values_out R = values_out b \<and> indices_out R = indices_out b \<and>
            values_out_swap R ! addr n stride y z p =
              merged_val asc n stride (2 * 2 ^ r) (values_out b) (y * n * stride + z) p \<and>
            (tracked_ok (before * n * stride) b \<longrightarrow>
               swap_view R (addr n stride y z p) =
                 run_val asc n stride (2 * 2 ^ r) (values_out b) (the (indices_out b))
                   (y * n * stride + z) p)) \<and>
         (odd r \<longrightarrow>
            values_out_swap R = values_out_swap b \<and> indices_out_swap R = indices_out_swap b \<and>
            values_out R ! addr n stride y z p =
              merged_val asc n stride (2 * 2 ^ r) (values_out_swap b) (y * n * stride + z) p \<and>
            (tracked_ok (before * n * stride) b \<longrightarrow>
               out_view R (addr n stride y z p) =
                 run_val asc n stride (2 * 2 ^ r) (values_out_swap b) (the (indices_out_swap b))
                   (y * n * stride + z) p)) \<and>
         (odd (ceil_log2 n) \<longrightarrow>
            values_out_swap RR ! addr n stride y z p = sorted_seg ! p \<and>
            values_out S ! addr n stride y z p = values_out_swap RR ! addr n stride y z p \<and>
            values_out_swap S = values_out_swap RR \<and>
            (tracked_ok (before * n * stride) b \<longrightarrow>
               the (indices_out S) ! addr n stride y z p =
               the (indices_out_swap RR) ! addr n stride y z p)) \<and>
         (even (ceil_log2 n) \<longrightarrow>
            S = RR \<and> values_out RR ! addr n stride y z p = sorted_seg ! p)"
proof -
  have npos: "0 < n" using assms(6) by simp
  note F = merge_round_frame[of r max_threads asc before n stride b, folded assms(7)]
  note V = merge_round_values[OF assms(1-6), of r asc, folded assms(7)]
  note C = merge_round_cells[OF assms(1) _ assms(4-6), of b r asc, folded assms(7)]
  note U = sort_kernels_unfold[OF npos, of ninf max_threads asc before stride dt data b,
      folded assms(8,9)]
  note G = segment_value_sorted_nth[OF assms(1-6), of ninf asc dt data, folded assms(9,10)]
  have 1: "even r \<longrightarrow>
            values_out R = values_out b \<and> indices_out R = indices_out b \<and>
            values_out_swap R ! addr n stride y z p =
              merged_val asc n stride (2 * 2 ^ r) (values_out b) (y * n * stride + z) p \<and>
            (tracked_ok (before * n * stride) b \<longrightarrow>
               swap_view R (addr n stride y z p) =
                 run_val asc n stride (2 * 2 ^ r) (values_out b) (the (indices_out b))
                   (y * n * stride + z) p)"
    using F V(1) C(1) by blast
  have 2: "odd r \<longrightarrow>
            values_out_swap R = values_out_swap b \<and> indices_out_swap R = indices_out_swap b \<and>
            values_out R ! addr n stride y z p =
              merged_val asc n stride (2 * 2 ^ r) (values_out_swap b) (y * n * stride + z) p \<and>
            (tracked_ok (before * n * stride) b \<longrightarrow>
               out_view R (addr n stride y z p) =
                 run_val asc n stride (2 * 2 ^ r) (values_out_swap b) (the (indices_out_swap b))
                   (y * n * stride + z) p)"
    using F V(2) C(2) by blast
  have 3: "odd (ceil_log2 n) \<longrightarrow>
            values_out_swap RR ! addr n stride y z p = sorted_seg ! p \<and>
            values_out S ! addr n stride y z p = values_out_swap RR ! addr n stride y z p \<and>
            values_out_swap S = values_out_swap RR \<and>
            (tracked_ok (before * n * stride) b \<longrightarrow>
               the (indices_out S) ! addr n stride y z p =
               the (indices_out_swap RR) ! addr n stride y z p)"
  proof
    assume odd: "odd (ceil_log2 n)"
    note c = final_copy_values[OF assms(1-6) odd, of ninf asc dt data, folded assms(8,9)]
    have s: "values_out_swap S = values_out_swap RR"
      using odd U by (simp add: writeback_fold_swap_frame)
    have t: "the (indices_out S) ! addr n stride y z p = the (indices_out_swap RR) ! addr n stride y z p"
      if "tracked_ok (before * n * stride) b"
      using final_copy_tracked[OF assms(1) that assms(4-6) odd, of ninf asc dt data, folded assms(8,9)]
      by (simp add: out_view_def swap_view_def)
    from c s t G
    show "values_out_swap RR ! addr n stride y z p = sorted_seg ! p \<and>
            values_out S ! addr n stride y z p = values_out_swap RR ! addr n stride y z p \<and>
            values_out_swap S = values_out_swap RR \<and>
            (tracked_ok (before * n * stride) b \<longrightarrow>
               the (indices_out S) ! addr n stride y z p =
               the (indices_out_swap RR) ! addr n stride y z p)"
      by simp
  qed
  have 4: "even (ceil_log2 n) \<longrightarrow> S = RR \<and> values_out RR ! addr n stride y z p = sorted_seg ! p"
  proof
    assume "even (ceil_log2 n)"
    with U have "S = RR" by simp
    with G show "S = RR \<and> values_out RR ! addr n stride y z p = sorted_seg ! p" by simp
  qed
  show ?thesis by (intro conjI 1 2 3 4)
qed

theorem ping_pong_roles_follow_round_parity_witness:
  "(values_out (merge_round 2 True 1 3 1 0
       \<lparr>values_out = [3, 1, 2 :: int], values_out_swap = [0, 0, 0],
        indices_out = None, indices_out_swap = None\<rparr>) = [3, 1, 2] \<and>
    values_out_swap (merge_round 2 True 1 3 1 0
       \<lparr>values_out = [3, 1, 2 :: int], values_out_swap = [0, 0, 0],
        indices_out = None, indices_out_swap = None\<rparr>) ! addr 3 1 0 0 0 = 1) \<and>
   (values_out_swap (merge_round 2 True 1 3 1 1
       \<lparr>values_out = [3, 1, 2 :: int], values_out_swap = [1, 3, 2],
        indices_out = None, indices_out_swap = None\<rparr>) = [1, 3, 2] \<and>
    values_out (merge_round 2 True 1 3 1 1
       \<lparr>values_out = [3, 1, 2 :: int], values_out_swap = [1, 3, 2],
        indices_out = None, indices_out_swap = None\<rparr>) ! addr 3 1 0 0 1 = 2) \<and>
   (values_out_swap (rounds_result (- (2 ^ 63)) 2 True 1 2 1 Int64 [3, 1]
       \<lparr>values_out = [0, 0 :: int], values_out_swap = [0, 0],
        indices_out = None, indices_out_swap = None\<rparr>) ! addr 2 1 0 0 0 = 1 \<and>
    values_out (sort_kernels (- (2 ^ 63)) 2 True 1 2 1 Int64 [3, 1]
       \<lparr>values_out = [0, 0 :: int], values_out_swap = [0, 0],
        indices_out = None, indices_out_swap = None\<rparr>) ! addr 2 1 0 0 0 = 1) \<and>
   (sort_kernels (- (2 ^ 63)) 2 True 1 3 1 Int64 [3, 1, 2]
       \<lparr>values_out = [0, 0, 0 :: int], values_out_swap = [0, 0, 0],
        indices_out = Some [0, 0, 0], indices_out_swap = Some [0, 0, 0]\<rparr> =
    rounds_result (- (2 ^ 63)) 2 True 1 3 1 Int64 [3, 1, 2]
       \<lparr>values_out = [0, 0, 0 :: int], values_out_swap = [0, 0, 0],
        indices_out = Some [0, 0, 0], indices_out_swap = Some [0, 0, 0]\<rparr> \<and>
    values_out (rounds_result (- (2 ^ 63)) 2 True 1 3 1 Int64 [3, 1, 2]
       \<lparr>values_out = [0, 0, 0 :: int], values_out_swap = [0, 0, 0],
        indices_out = Some [0, 0, 0], indices_out_swap = Some [0, 0, 0]\<rparr>) ! addr 3 1 0 0 0 = 1)"
proof -
  let ?b0 = "\<lparr>values_out = [3, 1, 2 :: int], values_out_swap = [0, 0, 0],
        indices_out = None, indices_out_swap = None\<rparr>"
  let ?b1 = "\<lparr>values_out = [3, 1, 2 :: int], values_out_swap = [1, 3, 2],
        indices_out = None, indices_out_swap = None\<rparr>"
  let ?b2 = "\<lparr>values_out = [0, 0 :: int], values_out_swap = [0, 0],
        indices_out = None, indices_out_swap = None\<rparr>"
  let ?b3 = "\<lparr>values_out = [0, 0, 0 :: int], values_out_swap = [0, 0, 0],
        indices_out = Some [0, 0, 0], indices_out_swap = Some [0, 0, 0]\<rparr>"
  have c: "0 < (2::nat)" "(0::nat) < 1" "(0::nat) < 3" "(1::nat) < 3" by simp_all
  have l3: "length (values_out ?b0) = 1 * 3 * 1" "length (values_out_swap ?b0) = 1 * 3 * 1"
    "length (values_out ?b1) = 1 * 3 * 1" "length (values_out_swap ?b1) = 1 * 3 * 1"
    "length (values_out ?b3) = 1 * 3 * 1" "length (values_out_swap ?b3) = 1 * 3 * 1"
    by simp_all
  have l2: "length (values_out ?b2) = 1 * 2 * 1" "length (values_out_swap ?b2) = 1 * 2 * 1"
    by simp_all
  have cl: "ceil_log2 3 = 2" by (simp add: ceil_log2.simps[of 3])
  have m0: "merged_val True 3 1 (2 * 2 ^ 0) [3, 1, 2 :: int] (0 * 3 * 1 + 0) 0 = 1"
    by (simp add: merged_val_def val_seg_def Let_def)
  have m1: "merged_val True 3 1 (2 * 2 ^ 1) [1, 3, 2 :: int] (0 * 3 * 1 + 0) 1 = 2"
    by (simp add: merged_val_def val_seg_def Let_def upt_conv_Cons)
  have s2: "sort (map (\<lambda>q. [3, 1 :: int] ! addr 2 1 0 0 q) [0..<2]) ! 0 = 1"
    by (simp add: addr_def upt_conv_Cons)
  have s3: "sort (map (\<lambda>q. [3, 1, 2 :: int] ! addr 3 1 0 0 q) [0..<3]) ! 0 = 1"
    by (simp add: addr_def upt_conv_Cons)
  note T0 = ping_pong_roles_follow_round_parity[where r = 0 and asc = True and p = 0
      and ninf = 0 and dt = Int64 and data = "[]",
      OF c(1) l3(1,2) c(2) c(2) c(3) refl refl refl refl]
  have W0: "values_out (merge_round 2 True 1 3 1 0 ?b0) = [3, 1, 2] \<and>
      values_out_swap (merge_round 2 True 1 3 1 0 ?b0) ! addr 3 1 0 0 0 = 1"
    using T0 m0 by simp
  note T1 = ping_pong_roles_follow_round_parity[where r = 1 and asc = True and p = 1
      and ninf = 0 and dt = Int64 and data = "[]",
      OF c(1) l3(3,4) c(2) c(2) c(4) refl refl refl refl]
  have W1: "values_out_swap (merge_round 2 True 1 3 1 1 ?b1) = [1, 3, 2] \<and>
      values_out (merge_round 2 True 1 3 1 1 ?b1) ! addr 3 1 0 0 1 = 2"
    using T1 m1 by simp
  note T2 = ping_pong_roles_follow_round_parity[where r = 0 and asc = True and p = 0
      and ninf = "- (2 ^ 63)" and dt = Int64 and data = "[3, 1]",
      OF c(1) l2(1,2) c(2) c(2) c(1) refl refl refl refl]
  have W2: "values_out_swap (rounds_result (- (2 ^ 63)) 2 True 1 2 1 Int64 [3, 1] ?b2) ! addr 2 1 0 0 0 = 1 \<and>
      values_out (sort_kernels (- (2 ^ 63)) 2 True 1 2 1 Int64 [3, 1] ?b2) ! addr 2 1 0 0 0 = 1"
    using T2 s2 by simp
  note T3 = ping_pong_roles_follow_round_parity[where r = 0 and asc = True and p = 0
      and ninf = "- (2 ^ 63)" and dt = Int64 and data = "[3, 1, 2]",
      OF c(1) l3(5,6) c(2) c(2) c(3) refl refl refl refl]
  have W3: "sort_kernels (- (2 ^ 63)) 2 True 1 3 1 Int64 [3, 1, 2] ?b3 =
      rounds_result (- (2 ^ 63)) 2 True 1 3 1 Int64 [3, 1, 2] ?b3 \<and>
      values_out (rounds_result (- (2 ^ 63)) 2 True 1 3 1 Int64 [3, 1, 2] ?b3) ! addr 3 1 0 0 0 = 1"
    using T3 s3 cl by simp
  show ?thesis by (intro conjI W0[THEN conjunct1] W0[THEN conjunct2] W1[THEN conjunct1]
      W1[THEN conjunct2] W2[THEN conjunct1] W2[THEN conjunct2] W3[THEN conjunct1] W3[THEN conjunct2])
qed

subsection \<open>The shortest axes\<close>

lemma cast_index_0 [simp]: "cast_index dt 0 = 0"
  by (cases dt) (simp_all add: cast_index_def round_to_bits_def)

text \<open>
  Counterexample to C8 as stated: for an empty axis the round bound \<open>L\<close> is not 0. It is
  the conversion of \<open>-inf\<close> to a 64-bit integer, the least 64-bit integer on x86-64.
\<close>

theorem empty_axis_round_bound_not_zero: "lim_rounds (- (2 ^ 63)) 0 \<noteq> 0"
  by (simp add: lim_rounds_def)

text \<open>
  C8 (amended). For an axis of length 1 the round bound is 0: the kernel sequence is the
  seed pass alone (no merge round, no final copy), the output values are the input, the
  swap buffers are untouched, and tracked indices are all the axis position 0.
\<close>

theorem unit_axis_runs_seed_pass_only:
  fixes b :: "'a::linorder bufs"
  assumes "n = 1" and "0 < max_threads"
    and "length (values_out b) = before * n * stride"
    and "length (values_out_swap b) = before * n * stride"
    and "length data = before * n * stride"
  shows "lim_rounds neg_inf_cast n = 0 \<and>
     sort_kernels neg_inf_cast max_threads asc before n stride dt data b =
       fold (seed_thread n stride dt data) (grid max_threads (ceil_div n max_threads) before stride) b \<and>
     values_out (sort_kernels neg_inf_cast max_threads asc before n stride dt data b) = data \<and>
     values_out_swap (sort_kernels neg_inf_cast max_threads asc before n stride dt data b) =
       values_out_swap b \<and>
     indices_out_swap (sort_kernels neg_inf_cast max_threads asc before n stride dt data b) =
       indices_out_swap b \<and>
     (tracked_ok (before * n * stride) b \<longrightarrow>
        indices_out (sort_kernels neg_inf_cast max_threads asc before n stride dt data b) =
          Some (replicate (before * n * stride) 0))"
proof -
  let ?g = "grid max_threads (ceil_div n max_threads) before stride"
  have L: "lim_rounds neg_inf_cast n = 0" using assms(1) by (simp add: lim_rounds_def)
  have r: "sort_kernels neg_inf_cast max_threads asc before n stride dt data b =
      fold (seed_thread n stride dt data) ?g b"
    by (simp add: sort_kernels_def Let_def L)
  have v: "values_out (fold (seed_thread n stride dt data) ?g b) = data"
    by (rule seed_fold_values[OF assms(2,3,4,5)])
  have i: "indices_out (fold (seed_thread n stride dt data) ?g b) = Some (replicate (before * n * stride) 0)"
    if ok: "tracked_ok (before * n * stride) b"
  proof -
    from seed_fold_indices[OF assms(2) ok, of dt data] obtain io where
      io: "indices_out (fold (seed_thread n stride dt data) ?g b) = Some io"
        "length io = before * n * stride"
        "\<forall>a<before * n * stride. io ! a = cast_index dt (a div stride mod n)"
      by blast
    have "io = replicate (before * n * stride) 0"
    proof (rule nth_equalityI)
      show "length io = length (replicate (before * n * stride) (0::nat))" using io by simp
    next
      fix a assume "a < length io"
      then have a: "a < before * n * stride" using io by simp
      have "a div stride mod n = 0" using assms(1) by simp
      then show "io ! a = replicate (before * n * stride) 0 ! a" using io a by simp
    qed
    with io show ?thesis by simp
  qed
  show ?thesis using L r v i seed_fold_swap_frame[of n stride dt data ?g b] by simp
qed

theorem unit_axis_runs_seed_pass_only_witness:
  "lim_rounds (- (2 ^ 63)) 1 = 0 \<and>
   values_out (sort_kernels (- (2 ^ 63)) 2 True 2 1 1 Float32 [7, 3 :: int]
     \<lparr>values_out = [0, 0], values_out_swap = [0, 0],
      indices_out = Some [5, 5], indices_out_swap = Some [5, 5]\<rparr>) = [7, 3] \<and>
   indices_out (sort_kernels (- (2 ^ 63)) 2 True 2 1 1 Float32 [7, 3 :: int]
     \<lparr>values_out = [0, 0], values_out_swap = [0, 0],
      indices_out = Some [5, 5], indices_out_swap = Some [5, 5]\<rparr>) = Some [0, 0]"
proof -
  let ?b = "\<lparr>values_out = [0, 0 :: int], values_out_swap = [0, 0],
      indices_out = Some [5, 5], indices_out_swap = Some [5, 5]\<rparr>"
  have ok: "tracked_ok (2 * 1 * 1) ?b" by (simp add: tracked_ok_def)
  have c: "(1::nat) = 1" "0 < (2::nat)" "length (values_out ?b) = 2 * 1 * 1"
    "length (values_out_swap ?b) = 2 * 1 * 1" "length [7, 3 :: int] = 2 * 1 * 1" by simp_all
  note T = unit_axis_runs_seed_pass_only[where asc = True and neg_inf_cast = "- (2 ^ 63)"
      and dt = Float32, OF c]
  from T ok have "indices_out (sort_kernels (- (2 ^ 63)) 2 True 2 1 1 Float32 [7, 3] ?b) =
      Some (replicate (2 * 1 * 1) 0)"
    by blast
  moreover from T have "lim_rounds (- (2 ^ 63)) 1 = 0"
    "values_out (sort_kernels (- (2 ^ 63)) 2 True 2 1 1 Float32 [7, 3] ?b) = [7, 3]"
    by blast+
  ultimately show ?thesis by (simp add: numeral_2_eq_2)
qed

end
